theory Spec2Isabelle
  imports Main "HOL-Library.Sublist"
begin

section \<open>JavaScript strings\<close>

text \<open>
  A JavaScript string is modelled as a \<^typ>\<open>string\<close>: each \<^typ>\<open>char\<close> stands for the
  UTF-16 code unit of the same number, so the model covers the code units \<open>0x00\<close> to
  \<open>0xFF\<close>.

  A JavaScript number is a double. The numbers that \<open>parseInt\<close> and the sums of the
  program produce are natural numbers that a double can hold, or \<open>Infinity\<close>; they are
  modelled by the type \<open>number\<close> below, with the rounding of every conversion and
  addition written out. Lengths and indexes of arrays are modelled as \<^typ>\<open>nat\<close> and \<^typ>\<open>int\<close>.
\<close>

definition is_space :: "char \<Rightarrow> bool" where
  \<comment> \<open>white space and line terminators, as \<open>\s\<close> and \<open>trim\<close> see them\<close>
  "is_space c \<longleftrightarrow>
     c \<in> set [CHR 0x09, CHR 0x0A, CHR 0x0B, CHR 0x0C, CHR 0x0D, CHR '' '', CHR 0xA0]"

definition is_digit :: "char \<Rightarrow> bool" where
  \<comment> \<open>\<open>\d\<close>\<close>
  "is_digit c \<longleftrightarrow> c \<in> set ''0123456789''"

definition is_dot :: "char \<Rightarrow> bool" where
  \<comment> \<open>\<open>.\<close> without the \<open>s\<close> flag: anything but a line terminator\<close>
  "is_dot c \<longleftrightarrow> c \<notin> set [CHR 0x0A, CHR 0x0D]"

definition not_slash :: "char \<Rightarrow> bool" where
  \<comment> \<open>\<open>[^\/]\<close>\<close>
  "not_slash c \<longleftrightarrow> c \<noteq> CHR ''/''"

definition is_branch_char :: "char \<Rightarrow> bool" where
  \<comment> \<open>\<open>[a-zA-Z0-9_.-]\<close>\<close>
  "is_branch_char c \<longleftrightarrow>
     c \<in> set ''abcdefghijklmnopqrstuvwxyzABCDEFGHIJKLMNOPQRSTUVWXYZ0123456789_.-''"

definition colon_or_slash :: "char \<Rightarrow> bool" where
  \<comment> \<open>\<open>[:\/]\<close>\<close>
  "colon_or_slash c \<longleftrightarrow> c \<in> set '':/''"

definition trim :: "string \<Rightarrow> string" where
  \<comment> \<open>\<open>String.prototype.trim\<close>\<close>
  "trim s = rev (dropWhile is_space (rev (dropWhile is_space s)))"

fun split_on :: "char \<Rightarrow> string \<Rightarrow> string list" where
  \<comment> \<open>\<open>s.split(d)\<close> for a one-character separator: always at least one field\<close>
  "split_on d [] = [[]]"
| "split_on d (c # cs) =
     (if c = d then [] # split_on d cs
      else (case split_on d cs of [] \<Rightarrow> [[c]] | f # fs \<Rightarrow> (c # f) # fs))"

fun replace_first :: "string \<Rightarrow> string \<Rightarrow> string \<Rightarrow> string" where
  \<comment> \<open>\<open>s.replace(pat, rep)\<close> for a string pattern and a replacement text without \<open>$\<close>:
      only the first occurrence\<close>
  "replace_first pat rep [] = (if pat = [] then rep else [])"
| "replace_first pat rep (c # cs) =
     (if prefix pat (c # cs) then rep @ drop (length pat) (c # cs)
      else c # replace_first pat rep cs)"

definition nth_opt :: "'a list \<Rightarrow> nat \<Rightarrow> 'a option" where
  \<comment> \<open>\<open>xs[i]\<close>: \<open>undefined\<close> (here \<open>None\<close>) out of range\<close>
  "nth_opt xs i = (if i < length xs then Some (xs ! i) else None)"

definition digit_val :: "char \<Rightarrow> nat" where
  "digit_val c = of_char c - 48"

definition decimalPrefix :: "string \<Rightarrow> nat" where
  \<comment> \<open>the integer that the decimal digits at the front of a string denote\<close>
  "decimalPrefix s = foldl (\<lambda>a c. 10 * a + digit_val c) 0 (takeWhile is_digit s)"

fun bitlen :: "nat \<Rightarrow> nat" where
  \<comment> \<open>the number of binary digits\<close>
  "bitlen n = (if n = 0 then 0 else Suc (bitlen (n div 2)))"

declare bitlen.simps [simp del]

datatype number = Fin nat | Infinity
  \<comment> \<open>a number that is a natural number or \<open>Infinity\<close>\<close>

definition toDouble :: "nat \<Rightarrow> number" where
  \<comment> \<open>the double nearest to a natural number, ties to the even significand: 53 binary
      digits are kept, and a result of more than 1024 binary digits is \<open>Infinity\<close>\<close>
  "toDouble n =
     (if n < 2 ^ 53 then Fin n
      else (let e = bitlen n - 53;
                q = n div 2 ^ e;
                r = n mod 2 ^ e;
                q' = (if 2 ^ (e - 1) < r \<or> (r = 2 ^ (e - 1) \<and> odd q) then q + 1 else q)
            in if bitlen q' + e \<le> 1024 then Fin (q' * 2 ^ e) else Infinity))"

fun jsAdd :: "number \<Rightarrow> number \<Rightarrow> number" where
  \<comment> \<open>\<open>a + b\<close> on numbers: the exact sum, rounded to a double\<close>
  "jsAdd (Fin a) (Fin b) = toDouble (a + b)"
| "jsAdd _ _ = Infinity"

fun numLess :: "number \<Rightarrow> number \<Rightarrow> bool" where
  \<comment> \<open>\<open>a < b\<close> on numbers\<close>
  "numLess (Fin a) (Fin b) \<longleftrightarrow> a < b"
| "numLess (Fin a) Infinity \<longleftrightarrow> True"
| "numLess Infinity _ \<longleftrightarrow> False"

definition parseInt :: "string \<Rightarrow> number" where
  \<comment> \<open>\<open>parseInt\<close> on a string that starts with decimal digits followed by nothing or by a
      space, which is what every call of the program passes (a match of \<open>\d+\<close> or of
      \<open>\d+ word\<close>): the value of the leading run of digits as a number, that is rounded
      to a double. The sign, white-space and radix prefix rules of \<open>parseInt\<close> never apply
      to such a string. For more than 20 significant digits the language lets an engine
      round less exactly than to the nearest double.\<close>
  "parseInt s = toDouble (decimalPrefix s)"

section \<open>Regular expressions\<close>

text \<open>
  The regular expressions of the program use literals, character classes, the anchors
  \<open>^\<close> and \<open>$\<close>, an optional group, capture groups and the quantifiers \<open>*\<close>, \<open>+\<close> and
  \<open>+?\<close> on a character class. A backtracking matcher tries the alternatives in a fixed
  order and keeps the first that lets the rest of the pattern match; \<open>step\<close> lists, in
  that order, every way a pattern can match at the front of the remaining input, so the
  head of the list is the match JavaScript reports.
\<close>

datatype re =
    Lit string                  \<comment> \<open>a run of literal characters\<close>
  | Cls "char \<Rightarrow> bool"          \<comment> \<open>one character of a class\<close>
  | Bos                         \<comment> \<open>\<open>^\<close>\<close>
  | Eos                         \<comment> \<open>\<open>$\<close>\<close>
  | Seq re re
  | Opt re                      \<comment> \<open>\<open>r?\<close>, greedy\<close>
  | Star "char \<Rightarrow> bool"         \<comment> \<open>\<open>c*\<close>, greedy\<close>
  | Plus "char \<Rightarrow> bool"         \<comment> \<open>\<open>c+\<close>, greedy\<close>
  | PlusLazy "char \<Rightarrow> bool"     \<comment> \<open>\<open>c+?\<close>\<close>
  | Grp nat re                  \<comment> \<open>capture group number \<open>n\<close>\<close>

type_synonym caps = "nat \<Rightarrow> string option"

fun reps :: "(char \<Rightarrow> bool) \<Rightarrow> string \<Rightarrow> string list" where
  \<comment> \<open>what remains after one, two, three, ... characters of the class\<close>
  "reps P [] = []"
| "reps P (c # cs) = (if P c then cs # reps P cs else [])"

fun step :: "string \<Rightarrow> re \<Rightarrow> string \<times> caps \<Rightarrow> (string \<times> caps) list" where
  "step inp (Lit w) (s, g) = (if prefix w s then [(drop (length w) s, g)] else [])"
| "step inp (Cls P) (s, g) = (case s of [] \<Rightarrow> [] | c # cs \<Rightarrow> if P c then [(cs, g)] else [])"
| "step inp Bos (s, g) = (if length s = length inp then [(s, g)] else [])"
| "step inp Eos (s, g) = (if s = [] then [(s, g)] else [])"
| "step inp (Seq r1 r2) st = concat (map (step inp r2) (step inp r1 st))"
| "step inp (Opt r) st = step inp r st @ [st]"
| "step inp (Star P) (s, g) = map (\<lambda>t. (t, g)) (rev (reps P s) @ [s])"
| "step inp (Plus P) (s, g) = map (\<lambda>t. (t, g)) (rev (reps P s))"
| "step inp (PlusLazy P) (s, g) = map (\<lambda>t. (t, g)) (reps P s)"
| "step inp (Grp n r) (s, g) =
     map (\<lambda>(t, h). (t, h(n \<mapsto> take (length s - length t) s))) (step inp r (s, g))"

record rmatch =
  before :: string       \<comment> \<open>the input in front of the match\<close>
  matched :: string      \<comment> \<open>the matched text, \<open>m[0]\<close>\<close>
  after :: string        \<comment> \<open>the input behind the match\<close>
  groups :: caps         \<comment> \<open>\<open>m[1]\<close>, \<open>m[2]\<close>, ...; \<open>None\<close> is \<open>undefined\<close>\<close>

definition match_here :: "string \<Rightarrow> re \<Rightarrow> string \<Rightarrow> rmatch option" where
  \<comment> \<open>the match that starts exactly at the suffix \<open>s\<close> of the input, if there is one\<close>
  "match_here inp r s =
     (case step inp r (s, Map.empty) of
        [] \<Rightarrow> None
      | (t, g) # _ \<Rightarrow>
          Some \<lparr>before = take (length inp - length s) inp,
                matched = take (length s - length t) s, after = t, groups = g\<rparr>)"

fun search :: "string \<Rightarrow> re \<Rightarrow> string \<Rightarrow> rmatch option" where
  \<comment> \<open>the leftmost match: every start position in turn, the end of the input included\<close>
  "search inp r [] = match_here inp r []"
| "search inp r (c # cs) =
     (case match_here inp r (c # cs) of Some m \<Rightarrow> Some m | None \<Rightarrow> search inp r cs)"

definition re_match :: "re \<Rightarrow> string \<Rightarrow> rmatch option" where
  \<comment> \<open>\<open>s.match(r)\<close> without the \<open>g\<close> flag; \<open>None\<close> is \<open>null\<close>\<close>
  "re_match r s = search s r s"

definition re_test :: "re \<Rightarrow> string \<Rightarrow> bool" where
  \<comment> \<open>\<open>r.test(s)\<close>\<close>
  "re_test r s \<longleftrightarrow> re_match r s \<noteq> None"

definition re_replace :: "re \<Rightarrow> string \<Rightarrow> string \<Rightarrow> string" where
  \<comment> \<open>\<open>s.replace(r, rep)\<close> without the \<open>g\<close> flag, for a replacement text without \<open>$\<close>\<close>
  "re_replace r rep s =
     (case re_match r s of None \<Rightarrow> s | Some m \<Rightarrow> before m @ rep @ after m)"

fun scan :: "string \<Rightarrow> re \<Rightarrow> nat \<Rightarrow> string \<Rightarrow> string list" where
  \<comment> \<open>the loop behind \<open>s.match(r)\<close> with the \<open>g\<close> flag: \<open>k\<close> counts the characters still
      covered by the last match; after a match the search goes on behind it, one
      character further when the match was empty\<close>
  "scan inp r k [] =
     (if k = 0 then (case match_here inp r [] of None \<Rightarrow> [] | Some m \<Rightarrow> [matched m]) else [])"
| "scan inp r k (c # cs) =
     (if 0 < k then scan inp r (k - 1) cs
      else (case match_here inp r (c # cs) of
              None \<Rightarrow> scan inp r 0 cs
            | Some m \<Rightarrow> matched m # scan inp r (length (matched m) - 1) cs))"

definition match_all :: "re \<Rightarrow> string \<Rightarrow> string list option" where
  \<comment> \<open>\<open>s.match(r)\<close> with the \<open>g\<close> flag: every matched text, or \<open>null\<close> when there is none\<close>
  "match_all r s = (case scan s r 0 s of [] \<Rightarrow> None | m # ms \<Rightarrow> Some (m # ms))"

section \<open>Data model (types.ts)\<close>

text \<open>
  The fields of a \<open>CommitInfo\<close> are filled by destructuring an array, so at run time each
  holds a string or \<open>undefined\<close>; \<open>None\<close> is \<open>undefined\<close>.
\<close>

record CommitInfo =
  hash :: "string option"
  author :: "string option"
  date :: "string option"
  message :: "string option"

record ContributorStats =
  name :: string
  email :: string
  commits :: number
  additions :: number
  deletions :: number
  firstCommit :: string
  lastCommit :: string

datatype error = Error string   \<comment> \<open>\<open>new Error(message)\<close>\<close>

section \<open>The shell and the file system\<close>

text \<open>
  The analyzer talks to the outside through \<open>shelljs\<close>, \<open>fs\<close>, \<open>path\<close> and the console.
  Every effect is recorded as an event, in the order of execution. What the outside
  answers is a parameter of the model: the result of a command and the existence of a
  path may depend on everything that happened before. \<open>chalk\<close> only colours text and
  is left out, as is the elapsed time that some messages end with.
\<close>

record exec_result =
  code :: int
  stdout :: string
  stderr :: string

datatype event =
    Exec string                \<comment> \<open>\<open>shell.exec(cmd, { silent: true })\<close>\<close>
  | MkdirP string              \<comment> \<open>\<open>shell.mkdir('-p', dir)\<close>\<close>
  | Cd string                  \<comment> \<open>\<open>shell.cd(dir)\<close>\<close>
  | RmRf string                \<comment> \<open>\<open>shell.rm('-rf', dir)\<close>\<close>
  | LogMsg string              \<comment> \<open>\<open>this.log(message)\<close>\<close>
  | SuccessMsg string          \<comment> \<open>\<open>this.success(message)\<close>\<close>
  | WarnMsg string             \<comment> \<open>\<open>this.warn(message)\<close>\<close>
  | ErrorMsg string            \<comment> \<open>\<open>this.error(message)\<close>\<close>
  | ConsoleError string        \<comment> \<open>\<open>console.error(text)\<close>\<close>
  | ConsoleErrorObj error      \<comment> \<open>\<open>console.error(error)\<close>\<close>

record sys =
  run :: "event list \<Rightarrow> string \<Rightarrow> exec_result"   \<comment> \<open>what a command returns after a history\<close>
  existsSync :: "event list \<Rightarrow> string \<Rightarrow> bool"  \<comment> \<open>\<open>fs.existsSync\<close> after a history\<close>
  dirname :: "string \<Rightarrow> string"                  \<comment> \<open>\<open>path.dirname\<close>\<close>
  cwd :: "event list \<Rightarrow> string"                   \<comment> \<open>\<open>process.cwd()\<close> after a history\<close>

definition exec :: "sys \<Rightarrow> string \<Rightarrow> event list \<Rightarrow> exec_result \<times> event list" where
  "exec sy cmd tr = (run sy tr cmd, tr @ [Exec cmd])"

text \<open>
  A \<open>RepositoryAnalyzer\<close> after its constructor has run: the URL it was given and the
  owner, repository name and local path derived from it.
\<close>

record RepositoryAnalyzer =
  repoUrl :: string
  username :: string
  repoName :: string
  repoPath :: string

section \<open>analyzer.ts: URLs\<close>

definition https_re :: re where
  \<comment> \<open>\<open>/github\.com\/([^\/]+)\/([^\/]+?)(\.git)?$/\<close>\<close>
  "https_re =
     Seq (Lit ''github.com/'') (Seq (Grp 1 (Plus not_slash)) (Seq (Lit ''/'')
       (Seq (Grp 2 (PlusLazy not_slash)) (Seq (Opt (Grp 3 (Lit ''.git''))) Eos))))"

definition ssh_re :: re where
  \<comment> \<open>\<open>/github\.com[:\/]([^\/]+)\/([^\/]+?)(\.git)?$/\<close>\<close>
  "ssh_re =
     Seq (Lit ''github.com'') (Seq (Cls colon_or_slash) (Seq (Grp 1 (Plus not_slash))
       (Seq (Lit ''/'') (Seq (Grp 2 (PlusLazy not_slash)) (Seq (Opt (Grp 3 (Lit ''.git'')))
         Eos)))))"

definition parseGitUrl :: "string \<Rightarrow> error + string option \<times> string option" where
  \<comment> \<open>the result is the pair \<open>(username, repoName)\<close>, that is \<open>(match[1], match[2])\<close>\<close>
  "parseGitUrl url =
     (let match = (case re_match https_re url of
                     None \<Rightarrow> re_match ssh_re url
                   | Some m \<Rightarrow> Some m)
      in case match of
           None \<Rightarrow> Inl (Error (''Unable to parse GitHub URL: '' @ url))
         | Some m \<Rightarrow> Inr (groups m 1, groups m 2))"

definition dot_git_end_re :: re where
  \<comment> \<open>\<open>/\.git$/\<close>\<close>
  "dot_git_end_re = Seq (Lit ''.git'') Eos"

definition normalizeGitUrl :: "string \<Rightarrow> string" where
  "normalizeGitUrl url =
     replace_first ''git@github.com:'' ''https://github.com/''
       (re_replace dot_git_end_re '''' (trim url))"

definition repoIdentifier :: "RepositoryAnalyzer \<Rightarrow> string" where
  "repoIdentifier a = username a @ ''/'' @ repoName a"

section \<open>analyzer.ts: acquiring the working copy\<close>

definition isValidGitRepo :: "sys \<Rightarrow> event list \<Rightarrow> string \<Rightarrow> bool" where
  "isValidGitRepo sy tr p \<longleftrightarrow> existsSync sy tr p \<and> existsSync sy tr (p @ ''/.git'')"

definition getCurrentRemoteUrl :: "sys \<Rightarrow> event list \<Rightarrow> string \<times> event list" where
  "getCurrentRemoteUrl sy tr =
     (let (result, tr1) = exec sy ''git remote get-url origin'' tr
      in (if code result = 0 then trim (stdout result) else '''', tr1))"

definition performFreshClone ::
  "sys \<Rightarrow> RepositoryAnalyzer \<Rightarrow> event list \<Rightarrow> (error + unit) \<times> event list" where
  "performFreshClone sy a tr =
     (let tr1 = tr @ [LogMsg (repoIdentifier a @ '': Cloning repository...'')];
          (result, tr2) = exec sy (''git clone '' @ repoUrl a @ '' '' @ repoPath a) tr1
      in if code result \<noteq> 0
         then (Inl (Error (''Failed to clone repository: '' @ stderr result)), tr2)
         else (Inr (),
               tr2 @ [Cd (repoPath a), SuccessMsg (repoIdentifier a @ '': Clone complete'')]))"

definition branch_re :: re where
  \<comment> \<open>\<open>/^[a-zA-Z0-9_.-]+$/\<close>\<close>
  "branch_re = Seq Bos (Seq (Plus is_branch_char) Eos)"

definition invalidBranch :: "string \<Rightarrow> bool" where
  \<comment> \<open>\<open>!defaultBranch || !/^[a-zA-Z0-9_.-]+$/.test(defaultBranch)\<close>\<close>
  "invalidBranch b \<longleftrightarrow> b = [] \<or> \<not> re_test branch_re b"

fun probeBranches ::
  "sys \<Rightarrow> string list \<Rightarrow> string \<Rightarrow> event list \<Rightarrow> string \<times> event list" where
  \<comment> \<open>the loop over \<open>['main', 'master']\<close>; \<open>d\<close> is \<open>defaultBranch\<close> before the loop\<close>
  "probeBranches sy [] d tr = (d, tr)"
| "probeBranches sy (branch # rest) d tr =
     (let (checkBranch, tr1) = exec sy (''git rev-parse --verify origin/'' @ branch) tr
      in if code checkBranch = 0 then (branch, tr1) else probeBranches sy rest d tr1)"

definition detectDefaultBranch :: "sys \<Rightarrow> event list \<Rightarrow> string \<times> event list" where
  \<comment> \<open>lines 158 to 179 of \<open>cloneRepo\<close>: the value of \<open>defaultBranch\<close> before the final check\<close>
  "detectDefaultBranch sy tr =
     (let (branchResult, tr1) =
            exec sy ''git remote show origin | grep \"HEAD branch\" | cut -d: -f2'' tr;
          defaultBranch = trim (stdout branchResult)
      in if invalidBranch defaultBranch
         then (let (refsResult, tr2) = exec sy ''git symbolic-ref refs/remotes/origin/HEAD'' tr1
               in if code refsResult = 0
                  then (replace_first ''refs/remotes/origin/'' '''' (trim (stdout refsResult)), tr2)
                  else probeBranches sy [''main'', ''master''] defaultBranch tr2)
         else (defaultBranch, tr1))"

definition updateExisting ::
  "sys \<Rightarrow> RepositoryAnalyzer \<Rightarrow> event list \<Rightarrow> (error + unit) \<times> event list" where
  \<comment> \<open>lines 151 to 198 of \<open>cloneRepo\<close>: the remote of the working copy is the expected one\<close>
  "updateExisting sy a tr =
     (let tr1 = tr @ [LogMsg (repoIdentifier a @ '': Updating existing repository...'')];
          (fetchResult, tr2) = exec sy ''git fetch --all --tags'' tr1
      in if code fetchResult \<noteq> 0
         then (Inl (Error (''Failed to fetch updates: '' @ stderr fetchResult)), tr2)
         else
          (let (defaultBranch, tr3) = detectDefaultBranch sy tr2
           in if invalidBranch defaultBranch
              then (Inl (Error (''Could not determine default branch for '' @ repoIdentifier a)),
                    tr3)
              else
               (let tr4 = tr3 @ [LogMsg (repoIdentifier a @ '': Resetting to '' @ defaultBranch
                                          @ ''...'')];
                    (resetResult, tr5) = exec sy (''git reset --hard origin/'' @ defaultBranch) tr4
                in if code resetResult \<noteq> 0
                   then (Inl (Error (''Failed to reset to origin/'' @ defaultBranch @ '': ''
                                      @ stderr resetResult)), tr5)
                   else
                    (let (cleanResult, tr6) = exec sy ''git clean -fd'' tr5
                     in if code cleanResult \<noteq> 0
                        then (Inl (Error (''Failed to clean repository: '' @ stderr cleanResult)),
                              tr6)
                        else (Inr (),
                              tr6 @ [SuccessMsg (repoIdentifier a @ '': Repository updated'')])))))"

definition cloneRepo ::
  "sys \<Rightarrow> RepositoryAnalyzer \<Rightarrow> event list \<Rightarrow> (error + unit) \<times> event list" where
  "cloneRepo sy a tr =
     (let tr1 = tr @ [MkdirP (dirname sy (repoPath a))]
      in if isValidGitRepo sy tr1 (repoPath a)
         then (let tr2 = tr1 @ [Cd (repoPath a)];
                   (currentUrl, tr3) = getCurrentRemoteUrl sy tr2;
                   expectedUrl = repoUrl a
               in if normalizeGitUrl currentUrl = normalizeGitUrl expectedUrl
                  then updateExisting sy a tr3
                  else performFreshClone sy a
                         (tr3 @ [WarnMsg (repoIdentifier a @ '': Remote URL differs, recloning...''),
                                 RmRf (repoPath a)]))
         else performFreshClone sy a tr1)"

definition cleanup :: "RepositoryAnalyzer \<Rightarrow> event list \<Rightarrow> event list" where
  "cleanup a tr = tr @ [RmRf (repoPath a)]"

fun resetBranch :: "event \<Rightarrow> string list" where
  \<comment> \<open>the text put behind \<open>git reset --hard origin/\<close>, when the event is such a command;
      used to state what reaches the reset command\<close>
  "resetBranch (Exec cmd) =
     (if prefix ''git reset --hard origin/'' cmd
      then [drop (length ''git reset --hard origin/'') cmd] else [])"
| "resetBranch _ = []"

definition resetBranches :: "event list \<Rightarrow> string list" where
  "resetBranches tr = concat (map resetBranch tr)"

section \<open>analyzer.ts: contributors\<close>

definition shortlog_re :: re where
  \<comment> \<open>\<open>/^\s*(\d+)\s+(.+?)\s+<(.+)>$/\<close>\<close>
  "shortlog_re =
     Seq Bos (Seq (Star is_space) (Seq (Grp 1 (Plus is_digit)) (Seq (Plus is_space)
       (Seq (Grp 2 (PlusLazy is_dot)) (Seq (Plus is_space) (Seq (Lit ''<'')
         (Seq (Grp 3 (Plus is_dot)) (Seq (Lit ''>'') Eos))))))))"

definition insertion_re :: re where
  \<comment> \<open>\<open>/(\d+) insertion/g\<close>\<close>
  "insertion_re = Seq (Grp 1 (Plus is_digit)) (Lit '' insertion'')"

definition deletion_re :: re where
  \<comment> \<open>\<open>/(\d+) deletion/g\<close>\<close>
  "deletion_re = Seq (Grp 1 (Plus is_digit)) (Lit '' deletion'')"

fun map_set :: "'k \<Rightarrow> 'v \<Rightarrow> ('k \<times> 'v) list \<Rightarrow> ('k \<times> 'v) list" where
  \<comment> \<open>\<open>Map.prototype.set\<close> on a map kept in insertion order: a known key keeps its place\<close>
  "map_set k v [] = [(k, v)]"
| "map_set k v ((k', v') # kvs) =
     (if k' = k then (k, v) # kvs else (k', v') # map_set k v kvs)"

definition shortlogLine ::
  "(string \<times> ContributorStats) list \<Rightarrow> string \<Rightarrow> (string \<times> ContributorStats) list" where
  \<comment> \<open>the callback of \<open>forEach\<close> over the lines of the shortlog; a match of the pattern
      always fills its three groups\<close>
  "shortlogLine contributors line =
     (case re_match shortlog_re (trim line) of
        None \<Rightarrow> contributors
      | Some m \<Rightarrow>
          (case (groups m 1, groups m 2, groups m 3) of
             (Some cs, Some n, Some e) \<Rightarrow>
               map_set e \<lparr>name = n, email = e, commits = parseInt cs, additions = Fin 0,
                          deletions = Fin 0, firstCommit = '''', lastCommit = ''''\<rparr> contributors
           | _ \<Rightarrow> contributors))"

definition parseAdditions :: "string \<Rightarrow> number" where
  \<comment> \<open>lines 267 and 270: \<open>match\<close> with \<open>g\<close>, \<open>parseInt\<close> of every match, \<open>reduce\<close> with \<open>+\<close>\<close>
  "parseAdditions authorStats =
     (let additions = (case match_all insertion_re authorStats of
                         None \<Rightarrow> []
                       | Some ms \<Rightarrow> map parseInt ms)
      in foldl jsAdd (Fin 0) additions)"

definition parseDeletions :: "string \<Rightarrow> number" where
  \<comment> \<open>lines 268 and 271\<close>
  "parseDeletions authorStats =
     (let deletions = (case match_all deletion_re authorStats of
                         None \<Rightarrow> []
                       | Some ms \<Rightarrow> map parseInt ms)
      in foldl jsAdd (Fin 0) deletions)"

fun authorLoop ::
  "sys \<Rightarrow> (string \<times> ContributorStats) list \<Rightarrow> event list
     \<Rightarrow> ContributorStats list \<times> event list" where
  \<comment> \<open>the loop \<open>for (const [email, stats] of contributors)\<close>, \<open>em\<close> being the key; the
      result lists the values of the map after the loop\<close>
  "authorLoop sy [] tr = ([], tr)"
| "authorLoop sy ((em, stats) # rest) tr =
     (let (r1, tr1) = exec sy (''git log --author=\"'' @ em
                               @ ''\" --pretty=format:\"%ad\" --date=short --reverse'') tr;
          authorLog = split_on CHR 0x0A (stdout r1);
          stats1 = (if 0 < length authorLog
                    then stats\<lparr>firstCommit := authorLog ! 0,
                               lastCommit := authorLog ! (length authorLog - 1)\<rparr>
                    else stats);
          (r2, tr2) = exec sy (''git log --author=\"'' @ em
                               @ ''\" --shortstat --pretty=format:\"\"'') tr1;
          authorStats = stdout r2;
          stats2 = stats1\<lparr>additions := parseAdditions authorStats,
                            deletions := parseDeletions authorStats\<rparr>;
          (out, tr3) = authorLoop sy rest tr2
      in (stats2 # out, tr3))"

fun insertByCommits :: "ContributorStats \<Rightarrow> ContributorStats list \<Rightarrow> ContributorStats list" where
  \<comment> \<open>puts an entry in front of the first one that does not have more commits\<close>
  "insertByCommits x [] = [x]"
| "insertByCommits x (y # ys) =
     (if numLess (commits x) (commits y) then y # insertByCommits x ys else x # y # ys)"

definition sortByCommits :: "ContributorStats list \<Rightarrow> ContributorStats list" where
  \<comment> \<open>\<open>sort((a, b) => b.commits - a.commits)\<close>: descending and stable; the difference of
      \<open>Infinity\<close> and \<open>Infinity\<close> is \<open>NaN\<close>, which the sort takes as equal\<close>
  "sortByCommits xs = foldr insertByCommits xs []"

definition analyzeContributors :: "sys \<Rightarrow> event list \<Rightarrow> ContributorStats list \<times> event list" where
  "analyzeContributors sy tr =
     (let (r, tr1) = exec sy ''git shortlog -sne --all'' tr;
          shortlog = stdout r;
          contributors = foldl shortlogLine [] (split_on CHR 0x0A shortlog);
          (vals, tr2) = authorLoop sy contributors tr1
      in (sortByCommits vals, tr2))"

section \<open>analyzer.ts: commit history and the result\<close>

definition parseCommitLine :: "string \<Rightarrow> CommitInfo" where
  \<comment> \<open>the callback of \<open>map\<close> in \<open>getCommitHistory\<close>, lines 285 to 288\<close>
  "parseCommitLine line =
     (let fields = split_on CHR ''|'' line
      in \<lparr>hash = nth_opt fields 0, author = nth_opt fields 1,
          date = nth_opt fields 2, message = nth_opt fields 3\<rparr>)"

definition parseCommitLog :: "string \<Rightarrow> CommitInfo list" where
  \<comment> \<open>\<open>log.split('\n').map(...)\<close>\<close>
  "parseCommitLog log = map parseCommitLine (split_on CHR 0x0A log)"

definition getCommitHistory :: "sys \<Rightarrow> event list \<Rightarrow> CommitInfo list \<times> event list" where
  "getCommitHistory sy tr =
     (let (r, tr1) = exec sy ''git log --pretty=format:\"%H|%an|%ad|%s\" --date=short'' tr
      in (parseCommitLog (stdout r), tr1))"

record RepositorySummary =
  totalCommits :: nat
  totalContributors :: nat
  firstCommit :: string
  lastCommit :: string

record AnalysisResult =
  summary :: RepositorySummary
  contributors :: "ContributorStats list"
  recentCommits :: "CommitInfo list"
  repositoryPath :: string

definition dateOrEmpty :: "CommitInfo option \<Rightarrow> string" where
  \<comment> \<open>\<open>c?.date || ''\<close>\<close>
  "dateOrEmpty c =
     (case c of
        None \<Rightarrow> ''''
      | Some ci \<Rightarrow> (case date ci of None \<Rightarrow> '''' | Some d \<Rightarrow> if d = [] then '''' else d))"

definition makeSummary :: "CommitInfo list \<Rightarrow> ContributorStats list \<Rightarrow> RepositorySummary" where
  \<comment> \<open>lines 91 to 96 of \<open>cloneAndAnalyze\<close>; \<open>commits[commits.length - 1]\<close> of an empty
      array is \<open>undefined\<close>\<close>
  "makeSummary cms cbs =
     \<lparr>totalCommits = length cms,
      totalContributors = length cbs,
      firstCommit = dateOrEmpty (if cms = [] then None else nth_opt cms (length cms - 1)),
      lastCommit = dateOrEmpty (nth_opt cms 0)\<rparr>"

definition cloneAndAnalyze ::
  "sys \<Rightarrow> RepositoryAnalyzer \<Rightarrow> event list \<Rightarrow> (error + AnalysisResult) \<times> event list" where
  \<comment> \<open>the \<open>try\<close> block, and the \<open>catch\<close> block for the only calls in it that can throw;
      of the message at the end the first line is kept, without the counts and dates
      that follow it\<close>
  "cloneAndAnalyze sy a tr =
     (case cloneRepo sy a tr of
        (Inl e, tr1) \<Rightarrow>
          (Inl e, cleanup a (tr1 @ [ErrorMsg (repoIdentifier a @ '': Analysis failed'')]))
      | (Inr _, tr1) \<Rightarrow>
          (let (cbs, tr2) = analyzeContributors sy tr1;
               (cms, tr3) = getCommitHistory sy tr2
           in (Inr \<lparr>summary = makeSummary cms cbs, contributors = cbs,
                     recentCommits = take 10 cms, repositoryPath = repoPath a\<rparr>,
               tr3 @ [SuccessMsg (repoIdentifier a @ '': Analysis complete'')])))"

section \<open>multi.ts: the batch coordinator\<close>

fun analyzeAllLoop ::
  "sys \<Rightarrow> string \<Rightarrow> RepositoryAnalyzer list \<Rightarrow> AnalysisResult list \<Rightarrow> event list
     \<Rightarrow> AnalysisResult list \<times> event list" where
  \<comment> \<open>the loop of \<open>analyzeAll\<close> with its \<open>try\<close>, \<open>catch\<close> and \<open>finally\<close>\<close>
  "analyzeAllLoop sy originalCwd [] results tr = (results, tr)"
| "analyzeAllLoop sy originalCwd (analyzer # rest) results tr =
     (case cloneAndAnalyze sy analyzer tr of
        (Inr result, tr1) \<Rightarrow>
          analyzeAllLoop sy originalCwd rest (results @ [result]) (tr1 @ [Cd originalCwd])
      | (Inl e, tr1) \<Rightarrow>
          analyzeAllLoop sy originalCwd rest results
            (tr1 @ [ConsoleError (''Failed to analyze repository: '' @ repoPath analyzer),
                    ConsoleErrorObj e, Cd originalCwd]))"

definition analyzeAll ::
  "sys \<Rightarrow> RepositoryAnalyzer list \<Rightarrow> event list \<Rightarrow> AnalysisResult list \<times> event list" where
  "analyzeAll sy analyzers tr = analyzeAllLoop sy (cwd sy tr) analyzers [] tr"

fun analyzeAllOutcomes ::
  "sys \<Rightarrow> string \<Rightarrow> RepositoryAnalyzer list \<Rightarrow> event list \<Rightarrow> (error + AnalysisResult) list" where
  \<comment> \<open>what the call of \<open>cloneAndAnalyze\<close> returns or throws in each round of the loop of
      \<open>analyzeAll\<close>, in the order of the rounds; used to state what the loop collects\<close>
  "analyzeAllOutcomes sy originalCwd [] tr = []"
| "analyzeAllOutcomes sy originalCwd (analyzer # rest) tr =
     (case cloneAndAnalyze sy analyzer tr of
        (Inr result, tr1) \<Rightarrow>
          Inr result # analyzeAllOutcomes sy originalCwd rest (tr1 @ [Cd originalCwd])
      | (Inl e, tr1) \<Rightarrow>
          Inl e # analyzeAllOutcomes sy originalCwd rest
            (tr1 @ [ConsoleError (''Failed to analyze repository: '' @ repoPath analyzer),
                    ConsoleErrorObj e, Cd originalCwd]))"

definition slice :: "'a list \<Rightarrow> int \<Rightarrow> int \<Rightarrow> 'a list" where
  \<comment> \<open>\<open>Array.prototype.slice(start, end)\<close>: a negative index counts from the end\<close>
  "slice xs start fin =
     (let n = int (length xs);
          k = (if start < 0 then max (n + start) 0 else min start n);
          final = (if fin < 0 then max (n + fin) 0 else min fin n)
      in take (nat (final - k)) (drop (nat k) xs))"

partial_function (option) chunkLoop ::
  "int \<Rightarrow> 'a list \<Rightarrow> int \<Rightarrow> 'a list list \<Rightarrow> 'a list list option" where
  \<comment> \<open>\<open>for (let i = 0; i < this.analyzers.length; i += concurrency)\<close>, lines 39 to 41;
      \<open>None\<close> when the loop never ends\<close>
  "chunkLoop concurrency analyzers i chunks =
     (if i < int (length analyzers)
      then chunkLoop concurrency analyzers (i + concurrency)
             (chunks @ [slice analyzers i (i + concurrency)])
      else Some chunks)"

primrec nonNull :: "'a option list \<Rightarrow> 'a list" where
  \<comment> \<open>\<open>chunkResults.filter(result => result !== null)\<close>\<close>
  "nonNull [] = []"
| "nonNull (x # xs) = (case x of None \<Rightarrow> nonNull xs | Some r \<Rightarrow> r # nonNull xs)"

definition settle :: "('t \<Rightarrow> error + 'r) \<Rightarrow> 't \<Rightarrow> 'r option" where
  \<comment> \<open>the \<open>async\<close> callback of \<open>chunk.map\<close>: the result, or \<open>null\<close> after a failure\<close>
  "settle outcome analyzer = (case outcome analyzer of Inr result \<Rightarrow> Some result | Inl e \<Rightarrow> None)"

text \<open>
  In \<open>analyzeAllParallel\<close> the analyses of a chunk run interleaved, in an order the
  promise scheduler decides. The model takes what each call of \<open>cloneAndAnalyze\<close> settles
  to as a parameter, \<open>outcome\<close>, and follows the code from there: the callback turns a
  failure into \<open>null\<close>, \<open>Promise.all\<close> keeps the order of the chunk, and the results
  that are not \<open>null\<close> are appended. An element of the list stands for one analyzer at
  one position. The console output and the changes of directory of this mode are not
  part of the model.
\<close>

definition analyzeAllParallel :: "('t \<Rightarrow> error + 'r) \<Rightarrow> int \<Rightarrow> 't list \<Rightarrow> 'r list option" where
  "analyzeAllParallel outcome concurrency analyzers =
     (case chunkLoop concurrency analyzers 0 [] of
        None \<Rightarrow> None
      | Some chunks \<Rightarrow>
          Some (foldl (\<lambda>results chunk. results @ nonNull (map (settle outcome) chunk)) [] chunks))"

section \<open>The shortstat sums as the specification words them\<close>


section \<open>Commit log and summary\<close>

lemma split_on_nonempty: "split_on d s \<noteq> []"
  by (induction s) (auto split: list.splits)

text \<open>
  Claim C1. The summary counts the parsed commit records, and an empty commit log is
  meant to give a count of 0 with both dates empty. The code does not do that: splitting
  the empty text at line breaks yields one empty line, so the log of a repository without
  commits is parsed into one record whose fields other than the hash are undefined, and
  the summary counts 1 commit. The count is never 0, whatever the log text is. The two
  dates of the summary are empty for the empty log. The last part runs \<open>cloneAndAnalyze\<close>
  where every command succeeds and prints nothing, as in a repository without commits.
\<close>

theorem empty_log_counts_one_commit:
  "0 < totalCommits (makeSummary (parseCommitLog log) cbs)
   \<and> parseCommitLog '''' = [\<lparr>hash = Some '''', author = None, date = None, message = None\<rparr>]
   \<and> makeSummary (parseCommitLog '''') cbs =
       \<lparr>totalCommits = 1, totalContributors = length cbs,
        firstCommit = '''', lastCommit = ''''\<rparr>
   \<and> fst (cloneAndAnalyze
         \<lparr>run = (\<lambda>tr cmd. \<lparr>code = 0, stdout = '''', stderr = ''''\<rparr>),
          existsSync = (\<lambda>tr p. False), dirname = (\<lambda>p. ''/r''), cwd = (\<lambda>tr. ''/w'')\<rparr>
         \<lparr>repoUrl = ''u'', username = ''o'', repoName = ''n'', repoPath = ''/r/n''\<rparr> [])
       = Inr \<lparr>summary = \<lparr>totalCommits = 1, totalContributors = 0, firstCommit = '''',
                            lastCommit = ''''\<rparr>,
               contributors = [],
               recentCommits = [\<lparr>hash = Some '''', author = None, date = None,
                                 message = None\<rparr>],
               repositoryPath = ''/r/n''\<rparr>"
proof (intro conjI)
  show "0 < totalCommits (makeSummary (parseCommitLog log) cbs)"
    by (simp add: makeSummary_def parseCommitLog_def split_on_nonempty)
  show "parseCommitLog '''' = [\<lparr>hash = Some '''', author = None, date = None, message = None\<rparr>]"
    by (simp add: parseCommitLog_def parseCommitLine_def nth_opt_def)
  show "makeSummary (parseCommitLog '''') cbs =
       \<lparr>totalCommits = 1, totalContributors = length cbs,
        firstCommit = '''', lastCommit = ''''\<rparr>"
    by (simp add: makeSummary_def parseCommitLog_def parseCommitLine_def nth_opt_def
        dateOrEmpty_def)
  show "fst (cloneAndAnalyze
         \<lparr>run = (\<lambda>tr cmd. \<lparr>code = 0, stdout = '''', stderr = ''''\<rparr>),
          existsSync = (\<lambda>tr p. False), dirname = (\<lambda>p. ''/r''), cwd = (\<lambda>tr. ''/w'')\<rparr>
         \<lparr>repoUrl = ''u'', username = ''o'', repoName = ''n'', repoPath = ''/r/n''\<rparr> [])
       = Inr \<lparr>summary = \<lparr>totalCommits = 1, totalContributors = 0, firstCommit = '''',
                            lastCommit = ''''\<rparr>,
               contributors = [],
               recentCommits = [\<lparr>hash = Some '''', author = None, date = None,
                                 message = None\<rparr>],
               repositoryPath = ''/r/n''\<rparr>"
    by code_simp
qed

text \<open>
  Claim C4. A line that yields fewer than four fields is meant to give a record whose
  missing fields are the empty string, the fields of a record being declared as strings.
  The code does not do that: the variables that the destructuring cannot fill stay
  undefined, and nothing replaces them. The line \<open>abc\<close> gives a record whose author,
  date and message are undefined, the line \<open>abc|me\<close> one whose date and message are
  undefined, and the empty log, which is one empty line, a record with an empty hash and
  nothing else. The parser does not throw, and the log has one record for each line.
\<close>

theorem short_line_leaves_fields_undefined:
  "parseCommitLine ''abc'' = \<lparr>hash = Some ''abc'', author = None, date = None, message = None\<rparr>
   \<and> author (parseCommitLine ''abc'') \<noteq> Some ''''
   \<and> parseCommitLine ''abc|me''
       = \<lparr>hash = Some ''abc'', author = Some ''me'', date = None, message = None\<rparr>
   \<and> parseCommitLog '''' = [\<lparr>hash = Some '''', author = None, date = None, message = None\<rparr>]
   \<and> length (parseCommitLog log) = length (split_on CHR 0x0A log)"
  by (simp add: parseCommitLog_def parseCommitLine_def nth_opt_def)

section \<open>Splitting into chunks\<close>

lemma slice_inside:
  assumes "0 \<le> i" "i < int (length xs)" "1 \<le> c"
  shows "slice xs i (i + c) = take (nat c) (drop (nat i) xs)"
proof -
  have "take (nat (min (i + c) (int (length xs)) - i)) (drop (nat i) xs)
        = take (nat c) (drop (nat i) xs)"
  proof (cases "i + c \<le> int (length xs)")
    case True
    then show ?thesis by (simp add: min_def)
  next
    case False
    with assms have "length (drop (nat i) xs) \<le> nat c" "length (drop (nat i) xs) \<le> nat (int (length xs) - i)"
      by auto
    with False show ?thesis by (simp add: min_def)
  qed
  with assms show ?thesis by (simp add: slice_def Let_def min_def)
qed

lemma chunkLoop_from:
  assumes "1 \<le> c" "0 \<le> i"
  shows "\<exists>cs. chunkLoop c xs i acc = Some (acc @ cs) \<and> concat cs = drop (nat i) xs
           \<and> (\<forall>ch \<in> set cs. ch \<noteq> [] \<and> int (length ch) \<le> c)
           \<and> (\<forall>ch \<in> set (butlast cs). int (length ch) = c)"
  using assms(2)
proof (induction "length xs - nat i" arbitrary: i acc rule: less_induct)
  case less
  show ?case
  proof (cases "i < int (length xs)")
    case False
    with less.prems have "drop (nat i) xs = []" by simp
    moreover from False have "chunkLoop c xs i acc = Some acc"
      by (subst chunkLoop.simps) simp
    ultimately show ?thesis by simp
  next
    case True
    let ?ch = "take (nat c) (drop (nat i) xs)"
    from True less.prems assms(1) have sl: "slice xs i (i + c) = ?ch"
      by (rule_tac slice_inside) auto
    from True less.prems assms(1) have dec: "length xs - nat (i + c) < length xs - nat i"
      by linarith
    from less.prems assms(1) have nn: "0 \<le> i + c" by simp
    from less.hyps[OF dec nn, of "acc @ [?ch]"] obtain cs where
      cs: "chunkLoop c xs (i + c) (acc @ [?ch]) = Some ((acc @ [?ch]) @ cs)"
          "concat cs = drop (nat (i + c)) xs"
          "\<forall>ch \<in> set cs. ch \<noteq> [] \<and> int (length ch) \<le> c"
          "\<forall>ch \<in> set (butlast cs). int (length ch) = c"
      by blast
    from True have 1: "chunkLoop c xs i acc = Some (acc @ (?ch # cs))"
      by (subst chunkLoop.simps) (simp add: sl cs(1))
    from less.prems assms(1) have nat_eq: "nat (i + c) = nat c + nat i" by linarith
    have 2: "concat (?ch # cs) = drop (nat i) xs"
      by (simp add: cs(2) nat_eq flip: drop_drop)
    from True less.prems assms(1) have 3: "?ch \<noteq> [] \<and> int (length ?ch) \<le> c"
      by auto
    have 4: "int (length ?ch) = c" if "cs \<noteq> []"
    proof -
      from that cs(3) have "concat cs \<noteq> []" by (cases cs) auto
      with cs(2) have "nat (i + c) < length xs" by simp
      with less.prems assms(1) show ?thesis by auto
    qed
    from 1 2 3 4 cs(3,4) show ?thesis
      by (intro exI[of _ "?ch # cs"]) auto
  qed
qed

lemma chunkLoop_zero_diverges:
  assumes "chunkLoop c xs i acc = Some y"
  shows "\<not> (c = 0 \<and> i < int (length xs))"
proof (rule chunkLoop.raw_induct[where P = "\<lambda>c xs i acc y. \<not> (c = 0 \<and> i < int (length xs))",
      OF _ assms])
  fix f :: "int \<Rightarrow> 'a list \<Rightarrow> int \<Rightarrow> 'a list list \<Rightarrow> 'a list list option"
  fix c xs i acc y
  assume IH: "\<And>c xs i acc y. f c xs i acc = Some y \<Longrightarrow> \<not> (c = 0 \<and> i < int (length xs))"
    and body: "(if i < int (length xs) then f c xs (i + c) (acc @ [slice xs i (i + c)])
                else Some acc) = Some y"
  show "\<not> (c = 0 \<and> i < int (length xs))"
  proof
    assume a: "c = 0 \<and> i < int (length xs)"
    with body have "f 0 xs i (acc @ [slice xs i i]) = Some y" by simp
    from IH[OF this] a show False by simp
  qed
qed

text \<open>
  Claim C10. With a concurrency of at least 1 the loop that splits the analyzers into
  chunks ends. Its chunks, put one after the other, are the original list; no chunk is
  empty or longer than the concurrency, and every chunk but the last has exactly that
  length. The bound on the concurrency is needed: with a concurrency of 0 and a list
  that is not empty the index stays where it is and the loop never ends.
\<close>

theorem chunkLoop_partitions_or_diverges:
  "(1 \<le> c \<longrightarrow>
      (\<exists>chunks. chunkLoop c xs 0 [] = Some chunks \<and> concat chunks = xs
         \<and> (\<forall>ch \<in> set chunks. ch \<noteq> [] \<and> int (length ch) \<le> c)
         \<and> (\<forall>ch \<in> set (butlast chunks). int (length ch) = c)))
   \<and> (xs \<noteq> [] \<longrightarrow> chunkLoop 0 xs 0 [] = None)"
proof (intro conjI impI)
  assume "1 \<le> c"
  from chunkLoop_from[OF this, of 0 xs "[]"]
  show "\<exists>chunks. chunkLoop c xs 0 [] = Some chunks \<and> concat chunks = xs
         \<and> (\<forall>ch \<in> set chunks. ch \<noteq> [] \<and> int (length ch) \<le> c)
         \<and> (\<forall>ch \<in> set (butlast chunks). int (length ch) = c)"
    by simp
next
  assume "xs \<noteq> []"
  then have "0 < int (length xs)" by simp
  with chunkLoop_zero_diverges[of 0 xs 0 "[]"] show "chunkLoop 0 xs 0 [] = None"
    by (cases "chunkLoop 0 xs 0 []") auto
qed

text \<open>The claim with concurrency 2 and with concurrency 0 on a list of five elements.\<close>

theorem chunkLoop_partitions_or_diverges_witness:
  "(1::int) \<le> 2 \<and> [1, 2, 3, 4, 5 :: nat] \<noteq> []
   \<and> chunkLoop 2 [1, 2, 3, 4, 5 :: nat] 0 [] = Some [[1, 2], [3, 4], [5]]
   \<and> chunkLoop 0 [1, 2, 3, 4, 5 :: nat] 0 [] = None"
proof -
  have a: "chunkLoop 0 [1, 2, 3, 4, 5 :: nat] 0 [] = None"
    using chunkLoop_partitions_or_diverges[of 0 "[1, 2, 3, 4, 5 :: nat]"] by simp
  have "\<exists>chunks. chunkLoop 2 [1, 2, 3, 4, 5 :: nat] 0 [] = Some chunks"
    using chunkLoop_partitions_or_diverges[of 2 "[1, 2, 3, 4, 5 :: nat]"] by auto
  moreover have "chunkLoop 2 [1, 2, 3, 4, 5 :: nat] 0 [] = Some [[1, 2], [3, 4], [5]]"
    by (simp add: chunkLoop.simps slice_def)
  ultimately show ?thesis using a by simp
qed

section \<open>Events are only ever added\<close>

lemma prefix_snoc: "prefix tr tr' \<Longrightarrow> prefix tr (tr' @ ev)"
  by (simp add: prefix_def) auto

lemma exec_grows: "prefix tr tr' \<Longrightarrow> prefix tr (snd (exec sy cmd tr'))"
  by (simp add: exec_def prefix_snoc)

lemma performFreshClone_grows:
  "prefix tr tr' \<Longrightarrow> prefix tr (snd (performFreshClone sy a tr'))"
  by (simp add: performFreshClone_def exec_def Let_def prefix_snoc)

lemma probeBranches_grows:
  "prefix tr tr' \<Longrightarrow> prefix tr (snd (probeBranches sy bs d tr'))"
  by (induction bs arbitrary: tr') (simp_all add: exec_def Let_def prefix_snoc)

lemma detectDefaultBranch_grows:
  "prefix tr tr' \<Longrightarrow> prefix tr (snd (detectDefaultBranch sy tr'))"
  by (simp add: detectDefaultBranch_def exec_def Let_def prefix_snoc probeBranches_grows)

lemma updateExisting_grows:
  "prefix tr tr' \<Longrightarrow> prefix tr (snd (updateExisting sy a tr'))"
  by (simp add: updateExisting_def exec_def Let_def split_def prefix_snoc
      detectDefaultBranch_grows)

lemma cloneRepo_grows: "prefix tr tr' \<Longrightarrow> prefix tr (snd (cloneRepo sy a tr'))"
  by (simp add: cloneRepo_def getCurrentRemoteUrl_def exec_def Let_def split_def prefix_snoc
      updateExisting_grows performFreshClone_grows)

lemma authorLoop_grows: "prefix tr tr' \<Longrightarrow> prefix tr (snd (authorLoop sy m tr'))"
  by (induction m arbitrary: tr') (auto simp: exec_def Let_def split_def prefix_snoc)

lemma analyzeContributors_grows:
  "prefix tr tr' \<Longrightarrow> prefix tr (snd (analyzeContributors sy tr'))"
  by (simp add: analyzeContributors_def exec_def Let_def split_def prefix_snoc authorLoop_grows)

lemma getCommitHistory_grows:
  "prefix tr tr' \<Longrightarrow> prefix tr (snd (getCommitHistory sy tr'))"
  by (simp add: getCommitHistory_def exec_def Let_def split_def prefix_snoc)

lemma cloneAndAnalyze_grows:
  "prefix tr tr' \<Longrightarrow> prefix tr (snd (cloneAndAnalyze sy a tr'))"
proof -
  assume p: "prefix tr tr'"
  obtain res tr1 where c: "cloneRepo sy a tr' = (res, tr1)" by (cases "cloneRepo sy a tr'")
  with cloneRepo_grows[OF p, of sy a] have p1: "prefix tr tr1" by simp
  show ?thesis
  proof (cases res)
    case (Inl e)
    with c p1 show ?thesis by (simp add: cloneAndAnalyze_def cleanup_def prefix_snoc)
  next
    case (Inr u)
    with c p1 show ?thesis
      by (simp add: cloneAndAnalyze_def Let_def split_def prefix_snoc
          getCommitHistory_grows analyzeContributors_grows)
  qed
qed

section \<open>The batch coordinator\<close>

lemma nonNull_append: "nonNull (xs @ ys) = nonNull xs @ nonNull ys"
  by (induction xs) (auto split: option.splits)

lemma foldl_chunks:
  "foldl (\<lambda>results chunk. results @ nonNull (map f chunk)) acc chunks
     = acc @ nonNull (map f (concat chunks))"
  by (induction chunks arbitrary: acc) (auto simp: nonNull_append)

lemma analyzeAllParallel_result:
  assumes "1 \<le> c"
  shows "analyzeAllParallel outcome c ts = Some (nonNull (map (settle outcome) ts))"
proof -
  from chunkLoop_from[OF assms, of 0 ts "[]"] obtain chunks where
    "chunkLoop c ts 0 [] = Some chunks" "concat chunks = ts" by auto
  then show ?thesis by (simp add: analyzeAllParallel_def foldl_chunks)
qed

lemma analyzeAllLoop_results:
  "fst (analyzeAllLoop sy d as acc tr)
     = acc @ nonNull (map (settle id) (analyzeAllOutcomes sy d as tr))"
proof (induction as arbitrary: acc tr)
  case Nil
  then show ?case by simp
next
  case (Cons a as)
  obtain res tr1 where c: "cloneAndAnalyze sy a tr = (res, tr1)"
    by (cases "cloneAndAnalyze sy a tr")
  show ?case by (cases res) (simp_all add: c Cons.IH settle_def)
qed

lemma analyzeAllOutcomes_length: "length (analyzeAllOutcomes sy d as tr) = length as"
proof (induction as arbitrary: tr)
  case Nil
  then show ?case by simp
next
  case (Cons a as)
  obtain res tr1 where c: "cloneAndAnalyze sy a tr = (res, tr1)"
    by (cases "cloneAndAnalyze sy a tr")
  show ?case by (cases res) (simp_all add: c Cons.IH)
qed

lemma analyzeAllLoop_grows:
  "prefix tr tr' \<Longrightarrow> prefix tr (snd (analyzeAllLoop sy d as acc tr'))"
proof (induction as arbitrary: acc tr')
  case Nil
  then show ?case by simp
next
  case (Cons a as)
  obtain res tr1 where c: "cloneAndAnalyze sy a tr' = (res, tr1)"
    by (cases "cloneAndAnalyze sy a tr'")
  with cloneAndAnalyze_grows[OF Cons.prems, of sy a] have p1: "prefix tr tr1" by simp
  show ?case by (cases res) (simp_all add: c Cons.IH p1 prefix_snoc)
qed

lemma analyzeAllLoop_logs:
  assumes "i < length as" "analyzeAllOutcomes sy d as tr ! i = Inl e"
  shows "ConsoleError (''Failed to analyze repository: '' @ repoPath (as ! i))
           \<in> set (snd (analyzeAllLoop sy d as acc tr))
         \<and> ConsoleErrorObj e \<in> set (snd (analyzeAllLoop sy d as acc tr))"
  using assms
proof (induction as arbitrary: i acc tr)
  case Nil
  then show ?case by simp
next
  case (Cons a as)
  obtain res tr1 where c: "cloneAndAnalyze sy a tr = (res, tr1)"
    by (cases "cloneAndAnalyze sy a tr")
  show ?case
  proof (cases i)
    case 0
    with Cons.prems c have r: "res = Inl e" by (cases res) simp_all
    let ?tr2 = "tr1 @ [ConsoleError (''Failed to analyze repository: '' @ repoPath a),
                    ConsoleErrorObj e, Cd d]"
    have "prefix ?tr2 (snd (analyzeAllLoop sy d as acc ?tr2))"
      by (rule analyzeAllLoop_grows) simp
    then have "set ?tr2 \<subseteq> set (snd (analyzeAllLoop sy d as acc ?tr2))"
      by (rule set_mono_prefix)
    with 0 r c show ?thesis by auto
  next
    case (Suc j)
    show ?thesis
    proof (cases res)
      case (Inl e')
      let ?tr2 = "tr1 @ [ConsoleError (''Failed to analyze repository: '' @ repoPath a),
                    ConsoleErrorObj e', Cd d]"
      from Suc Cons.prems c Inl have "j < length as" "analyzeAllOutcomes sy d as ?tr2 ! j = Inl e"
        by simp_all
      from Cons.IH[OF this, of acc] Suc c Inl show ?thesis by simp
    next
      case (Inr r)
      from Suc Cons.prems c Inr
      have "j < length as" "analyzeAllOutcomes sy d as (tr1 @ [Cd d]) ! j = Inl e"
        by simp_all
      from Cons.IH[OF this, of "acc @ [r]"] Suc c Inr show ?thesis by simp
    qed
  qed
qed

lemma nonNull_settle: "nonNull (map (settle f) xs) = [r. Inr r \<leftarrow> map f xs]"
  by (induction xs) (auto simp: settle_def split: sum.splits)

text \<open>
  Claim C7. The batch coordinator does not raise for the failure of a repository. In
  sequential mode every analyzer gets its round, whatever the rounds before it did; the
  result holds the results of the rounds that succeeded, in their order, and a round
  that failed has written the path of the repository and the error to the error console.
  In bounded-parallel mode with a concurrency of at least 1 the result holds, in the
  order of the input, the results of the analyses that succeeded: a failure removes
  nothing but its own entry. With a concurrency of 2 and five repositories of which the
  third fails, the result is the results of the first, second, fourth and fifth.
\<close>

theorem batch_collects_successes:
  "fst (analyzeAll sy as tr) = [r. Inr r \<leftarrow> analyzeAllOutcomes sy (cwd sy tr) as tr]
   \<and> length (analyzeAllOutcomes sy (cwd sy tr) as tr) = length as
   \<and> (\<forall>i < length as. \<forall>e. analyzeAllOutcomes sy (cwd sy tr) as tr ! i = Inl e \<longrightarrow>
         ConsoleError (''Failed to analyze repository: '' @ repoPath (as ! i))
           \<in> set (snd (analyzeAll sy as tr))
         \<and> ConsoleErrorObj e \<in> set (snd (analyzeAll sy as tr)))
   \<and> (1 \<le> c \<longrightarrow> analyzeAllParallel outcome c ts = Some [r. Inr r \<leftarrow> map outcome ts])
   \<and> (outcome t1 = Inr r1 \<and> outcome t2 = Inr r2 \<and> outcome t3 = Inl e3
        \<and> outcome t4 = Inr r4 \<and> outcome t5 = Inr r5 \<longrightarrow>
      analyzeAllParallel outcome 2 [t1, t2, t3, t4, t5] = Some [r1, r2, r4, r5])"
proof (intro conjI allI impI)
  show "fst (analyzeAll sy as tr) = [r. Inr r \<leftarrow> analyzeAllOutcomes sy (cwd sy tr) as tr]"
    using nonNull_settle[of id "analyzeAllOutcomes sy (cwd sy tr) as tr"]
    by (simp add: analyzeAll_def analyzeAllLoop_results)
  show "length (analyzeAllOutcomes sy (cwd sy tr) as tr) = length as"
    by (rule analyzeAllOutcomes_length)
  show "ConsoleError (''Failed to analyze repository: '' @ repoPath (as ! i))
           \<in> set (snd (analyzeAll sy as tr))"
    if "i < length as" "analyzeAllOutcomes sy (cwd sy tr) as tr ! i = Inl e" for i e
    using analyzeAllLoop_logs[OF that, of "[]"] by (simp add: analyzeAll_def)
  show "ConsoleErrorObj e \<in> set (snd (analyzeAll sy as tr))"
    if "i < length as" "analyzeAllOutcomes sy (cwd sy tr) as tr ! i = Inl e" for i e
    using analyzeAllLoop_logs[OF that, of "[]"] by (simp add: analyzeAll_def)
  show "analyzeAllParallel outcome c ts = Some [r. Inr r \<leftarrow> map outcome ts]" if "1 \<le> c"
    using that by (simp add: analyzeAllParallel_result nonNull_settle)
  show "analyzeAllParallel outcome 2 [t1, t2, t3, t4, t5] = Some [r1, r2, r4, r5]"
    if "outcome t1 = Inr r1 \<and> outcome t2 = Inr r2 \<and> outcome t3 = Inl e3
        \<and> outcome t4 = Inr r4 \<and> outcome t5 = Inr r5"
    using that by (simp add: analyzeAllParallel_result settle_def)
qed

text \<open>
  The claim for one repository whose clone fails, and for five tasks of which the third
  fails.
\<close>

theorem batch_collects_successes_witness:
  "fst (analyzeAll
         \<lparr>run = (\<lambda>tr cmd. \<lparr>code = 1, stdout = '''', stderr = ''no''\<rparr>),
          existsSync = (\<lambda>tr p. False), dirname = (\<lambda>p. ''/r''), cwd = (\<lambda>tr. ''/w'')\<rparr>
         [\<lparr>repoUrl = ''u'', username = ''o'', repoName = ''n'', repoPath = ''/r/n''\<rparr>] []) = []
   \<and> ConsoleErrorObj (Error ''Failed to clone repository: no'')
       \<in> set (snd (analyzeAll
         \<lparr>run = (\<lambda>tr cmd. \<lparr>code = 1, stdout = '''', stderr = ''no''\<rparr>),
          existsSync = (\<lambda>tr p. False), dirname = (\<lambda>p. ''/r''), cwd = (\<lambda>tr. ''/w'')\<rparr>
         [\<lparr>repoUrl = ''u'', username = ''o'', repoName = ''n'', repoPath = ''/r/n''\<rparr>] []))
   \<and> (1::int) \<le> 2
   \<and> analyzeAllParallel (\<lambda>n::nat. if n = 3 then Inl (Error ''failed'') else Inr (10 * n)) 2
        [1, 2, 3, 4, 5] = Some [10, 20, 40, 50]"
proof -
  let ?sy = "\<lparr>run = (\<lambda>tr cmd. \<lparr>code = 1, stdout = '''', stderr = ''no''\<rparr>),
          existsSync = (\<lambda>tr p. False), dirname = (\<lambda>p. ''/r''), cwd = (\<lambda>tr. ''/w'')\<rparr>"
  let ?a = "\<lparr>repoUrl = ''u'', username = ''o'', repoName = ''n'', repoPath = ''/r/n''\<rparr>"
  let ?f = "\<lambda>n::nat. if n = 3 then Inl (Error ''failed'') else Inr (10 * n)"
  have o: "analyzeAllOutcomes ?sy ''/w'' [?a] [] = [Inl (Error ''Failed to clone repository: no'')]"
    by (simp add: cloneAndAnalyze_def cloneRepo_def isValidGitRepo_def performFreshClone_def
        exec_def Let_def)
  from batch_collects_successes[of ?sy "[?a]" "[]" 2 ?f "[1, 2, 3, 4, 5]" 1 10 2 20 3 "Error ''failed''" 4 40 5 50] o
  show ?thesis by simp
qed

section \<open>The branch that reaches the reset command\<close>

lemma reps_has_nil: "[] \<in> set (reps P s) \<longleftrightarrow> s \<noteq> [] \<and> (\<forall>c \<in> set s. P c)"
  by (induction s) auto

lemma step_Eos_any:
  "concat (map (step inp Eos) (map (\<lambda>t. (t, g)) ts)) \<noteq> [] \<longleftrightarrow> [] \<in> set ts"
  by (induction ts) auto

lemma search_Bos_later:
  "length s < length inp \<Longrightarrow> search inp (Seq Bos r) s = None"
  by (induction s) (simp_all add: match_here_def)

lemma re_test_branch_re:
  "re_test branch_re b \<longleftrightarrow> b \<noteq> [] \<and> (\<forall>c \<in> set b. is_branch_char c)"
proof -
  have st: "step b branch_re (b, g) \<noteq> [] \<longleftrightarrow> b \<noteq> [] \<and> (\<forall>c \<in> set b. is_branch_char c)" for g
    using step_Eos_any[of b g "rev (reps is_branch_char b)"]
    by (simp add: branch_re_def reps_has_nil)
  show ?thesis
  proof (cases b)
    case Nil
    then show ?thesis by (simp add: re_test_def re_match_def match_here_def branch_re_def)
  next
    case (Cons c cs)
    have "search b (Seq Bos (Seq (Plus is_branch_char) Eos)) cs = None"
      by (rule search_Bos_later) (simp add: Cons)
    then have "re_match branch_re b = match_here b branch_re b"
      by (simp add: re_match_def Cons branch_re_def split: option.splits)
    moreover have "match_here b branch_re b \<noteq> None \<longleftrightarrow> step b branch_re (b, Map.empty) \<noteq> []"
      by (simp add: match_here_def split: list.splits prod.splits)
    ultimately show ?thesis using st by (simp add: re_test_def)
  qed
qed

lemma resetBranches_append [simp]:
  "resetBranches (xs @ ys) = resetBranches xs @ resetBranches ys"
  by (simp add: resetBranches_def)

lemma resetBranches_Nil [simp]: "resetBranches [] = []"
  by (simp add: resetBranches_def)

lemma resetBranches_Cons [simp]: "resetBranches (e # es) = resetBranch e @ resetBranches es"
  by (simp add: resetBranches_def)

lemma resetBranch_reset [simp]:
  "resetBranch (Exec (''git reset --hard origin/'' @ b)) = [b]"
  by simp

lemma performFreshClone_events:
  "\<exists>new. snd (performFreshClone sy a tr) = tr @ new \<and> resetBranches new = []"
  by (simp add: performFreshClone_def exec_def Let_def)

lemma probeBranches_events:
  "\<exists>new. snd (probeBranches sy bs d tr) = tr @ new \<and> resetBranches new = []"
proof (induction bs arbitrary: tr)
  case Nil
  then show ?case by simp
next
  case (Cons b bs)
  from Cons[of "tr @ [Exec (''git rev-parse --verify origin/'' @ b)]"]
  show ?case by (auto simp: exec_def Let_def)
qed

lemma detectDefaultBranch_events:
  "\<exists>new. snd (detectDefaultBranch sy tr) = tr @ new \<and> resetBranches new = []"
proof -
  let ?c1 = "''git remote show origin | grep \"HEAD branch\" | cut -d: -f2''"
  let ?c2 = "''git symbolic-ref refs/remotes/origin/HEAD''"
  let ?tr2 = "tr @ [Exec ?c1, Exec ?c2]"
  from probeBranches_events[of sy "[''main'', ''master'']" _ ?tr2]
  show ?thesis
    by (auto simp: detectDefaultBranch_def exec_def Let_def)
qed

lemma updateExisting_events:
  "\<exists>new. snd (updateExisting sy a tr) = tr @ new
         \<and> (\<forall>b \<in> set (resetBranches new). \<not> invalidBranch b)"
proof -
  let ?tr2 = "tr @ [LogMsg (repoIdentifier a @ '': Updating existing repository...''),
                   Exec ''git fetch --all --tags'']"
  obtain b tr3 where d: "detectDefaultBranch sy ?tr2 = (b, tr3)"
    by (cases "detectDefaultBranch sy ?tr2")
  from detectDefaultBranch_events[of sy ?tr2] d obtain newD where
    nd: "tr3 = ?tr2 @ newD" "resetBranches newD = []" by auto
  show ?thesis
    by (simp add: updateExisting_def exec_def Let_def d nd)
qed

lemma cloneRepo_events:
  "\<exists>new. snd (cloneRepo sy a tr) = tr @ new
         \<and> (\<forall>b \<in> set (resetBranches new). \<not> invalidBranch b)"
proof -
  let ?tr1 = "tr @ [MkdirP (dirname sy (repoPath a))]"
  let ?tr3 = "?tr1 @ [Cd (repoPath a), Exec ''git remote get-url origin'']"
  let ?tr4 = "?tr3 @ [WarnMsg (repoIdentifier a @ '': Remote URL differs, recloning...''),
                      RmRf (repoPath a)]"
  from updateExisting_events[of sy a ?tr3] obtain n1 where
    n1: "snd (updateExisting sy a ?tr3) = ?tr3 @ n1"
        "\<forall>b \<in> set (resetBranches n1). \<not> invalidBranch b" by blast
  from performFreshClone_events[of sy a ?tr4] obtain n2 where
    n2: "snd (performFreshClone sy a ?tr4) = ?tr4 @ n2" "resetBranches n2 = []" by blast
  from performFreshClone_events[of sy a ?tr1] obtain n3 where
    n3: "snd (performFreshClone sy a ?tr1) = ?tr1 @ n3" "resetBranches n3 = []" by blast
  from n1 n2 n3 show ?thesis
    by (simp add: cloneRepo_def getCurrentRemoteUrl_def exec_def Let_def)
qed

lemma valid_branch_chars:
  "\<not> invalidBranch b \<Longrightarrow> b \<noteq> [] \<and> re_test branch_re b \<and> (\<forall>c \<in> set b. is_branch_char c)"
  by (simp add: invalidBranch_def re_test_branch_re)

text \<open>
  Claim C5. Every branch name that \<open>cloneRepo\<close> puts behind \<open>git reset --hard origin/\<close>
  passes the test against \<open>^[a-zA-Z0-9_.-]+$\<close>: it is not empty and consists of letters,
  digits, underscore, dot and hyphen. In the update of an existing working copy, once the
  fetch has succeeded, the name that the three ways of finding the default branch end
  with is checked: when it does not pass, the update fails with the error that the
  default branch could not be determined, nothing is executed after the search for the
  branch, and no reset command is issued; when it passes, the one reset command issued
  carries exactly that name.
\<close>

theorem reset_branch_is_validated:
  "(\<forall>b \<in> set (resetBranches (drop (length tr) (snd (cloneRepo sy a tr)))).
      b \<noteq> [] \<and> re_test branch_re b \<and> (\<forall>c \<in> set b. is_branch_char c))
   \<and> (\<forall>b \<in> set (resetBranches (drop (length tr) (snd (updateExisting sy a tr)))).
      b \<noteq> [] \<and> re_test branch_re b \<and> (\<forall>c \<in> set b. is_branch_char c))
   \<and> (code (run sy (tr @ [LogMsg (repoIdentifier a @ '': Updating existing repository...'')])
               ''git fetch --all --tags'') = 0 \<longrightarrow>
       (let found = detectDefaultBranch sy
                      (tr @ [LogMsg (repoIdentifier a @ '': Updating existing repository...''),
                             Exec ''git fetch --all --tags''])
        in if invalidBranch (fst found)
           then updateExisting sy a tr =
                  (Inl (Error (''Could not determine default branch for '' @ repoIdentifier a)),
                   snd found)
                \<and> resetBranches (drop (length tr) (snd (updateExisting sy a tr))) = []
           else resetBranches (drop (length tr) (snd (updateExisting sy a tr))) = [fst found]))"
proof -
  let ?tr2 = "tr @ [LogMsg (repoIdentifier a @ '': Updating existing repository...''),
                   Exec ''git fetch --all --tags'']"
  have A: "b \<noteq> [] \<and> re_test branch_re b \<and> (\<forall>c \<in> set b. is_branch_char c)"
    if "b \<in> set (resetBranches (drop (length tr) (snd (cloneRepo sy a tr))))" for b
  proof -
    from that cloneRepo_events[of sy a tr] have "\<not> invalidBranch b" by auto
    then show ?thesis by (rule valid_branch_chars)
  qed
  have B: "b \<noteq> [] \<and> re_test branch_re b \<and> (\<forall>c \<in> set b. is_branch_char c)"
    if "b \<in> set (resetBranches (drop (length tr) (snd (updateExisting sy a tr))))" for b
  proof -
    from that updateExisting_events[of sy a tr] have "\<not> invalidBranch b" by auto
    then show ?thesis by (rule valid_branch_chars)
  qed
  have C: "let found = detectDefaultBranch sy ?tr2
        in if invalidBranch (fst found)
           then updateExisting sy a tr =
                  (Inl (Error (''Could not determine default branch for '' @ repoIdentifier a)),
                   snd found)
                \<and> resetBranches (drop (length tr) (snd (updateExisting sy a tr))) = []
           else resetBranches (drop (length tr) (snd (updateExisting sy a tr))) = [fst found]"
    if f: "code (run sy (tr @ [LogMsg (repoIdentifier a @ '': Updating existing repository...'')])
               ''git fetch --all --tags'') = 0"
  proof -
    obtain b tr3 where d: "detectDefaultBranch sy ?tr2 = (b, tr3)"
      by (cases "detectDefaultBranch sy ?tr2")
    from detectDefaultBranch_events[of sy ?tr2] d obtain newD where
      nd: "tr3 = ?tr2 @ newD" "resetBranches newD = []" by auto
    from f show ?thesis
      by (simp add: updateExisting_def exec_def Let_def d nd)
  qed
  from A B C show ?thesis by blast
qed

text \<open>
  The claim where the remote names the branch \<open>main\<close>, and where the only name found is
  not a branch name.
\<close>

theorem reset_branch_is_validated_witness:
  "resetBranches (snd (updateExisting
      \<lparr>run = (\<lambda>tr cmd. \<lparr>code = 0, stdout = '' main'' @ [CHR 0x0A], stderr = ''''\<rparr>),
       existsSync = (\<lambda>tr p. True), dirname = (\<lambda>p. ''/r''), cwd = (\<lambda>tr. ''/w'')\<rparr>
      \<lparr>repoUrl = ''u'', username = ''o'', repoName = ''n'', repoPath = ''/r/n''\<rparr> [])) = [''main'']
   \<and> updateExisting
      \<lparr>run = (\<lambda>tr cmd. \<lparr>code = (if cmd = ''git fetch --all --tags'' then 0 else 1),
                         stdout = ''x; rm -rf /'', stderr = ''''\<rparr>),
       existsSync = (\<lambda>tr p. True), dirname = (\<lambda>p. ''/r''), cwd = (\<lambda>tr. ''/w'')\<rparr>
      \<lparr>repoUrl = ''u'', username = ''o'', repoName = ''n'', repoPath = ''/r/n''\<rparr> []
     = (Inl (Error ''Could not determine default branch for o/n''),
        [LogMsg ''o/n: Updating existing repository...'', Exec ''git fetch --all --tags'',
         Exec ''git remote show origin | grep \"HEAD branch\" | cut -d: -f2'',
         Exec ''git symbolic-ref refs/remotes/origin/HEAD'',
         Exec ''git rev-parse --verify origin/main'',
         Exec ''git rev-parse --verify origin/master''])"
proof -
  let ?a = "\<lparr>repoUrl = ''u'', username = ''o'', repoName = ''n'', repoPath = ''/r/n''\<rparr>"
  let ?s1 = "\<lparr>run = (\<lambda>tr cmd. \<lparr>code = 0, stdout = '' main'' @ [CHR 0x0A], stderr = ''''\<rparr>),
       existsSync = (\<lambda>tr p. True), dirname = (\<lambda>p. ''/r''), cwd = (\<lambda>tr. ''/w'')\<rparr>"
  let ?s2 = "\<lparr>run = (\<lambda>tr cmd. \<lparr>code = (if cmd = ''git fetch --all --tags'' then 0 else 1),
                         stdout = ''x; rm -rf /'', stderr = ''''\<rparr>),
       existsSync = (\<lambda>tr p. True), dirname = (\<lambda>p. ''/r''), cwd = (\<lambda>tr. ''/w'')\<rparr>"
  have d1: "detectDefaultBranch ?s1 [LogMsg ''o/n: Updating existing repository...'',
                             Exec ''git fetch --all --tags'']
            = (''main'', [LogMsg ''o/n: Updating existing repository...'',
                             Exec ''git fetch --all --tags'',
                Exec ''git remote show origin | grep \"HEAD branch\" | cut -d: -f2''])"
    by (simp add: detectDefaultBranch_def exec_def Let_def trim_def is_space_def
        invalidBranch_def re_test_branch_re is_branch_char_def)
  have d2: "detectDefaultBranch ?s2 [LogMsg ''o/n: Updating existing repository...'',
                             Exec ''git fetch --all --tags'']
            = (''x; rm -rf /'', [LogMsg ''o/n: Updating existing repository...'',
                 Exec ''git fetch --all --tags'',
                 Exec ''git remote show origin | grep \"HEAD branch\" | cut -d: -f2'',
                 Exec ''git symbolic-ref refs/remotes/origin/HEAD'',
                 Exec ''git rev-parse --verify origin/main'',
                 Exec ''git rev-parse --verify origin/master''])"
    by (simp add: detectDefaultBranch_def exec_def Let_def trim_def is_space_def
        invalidBranch_def re_test_branch_re is_branch_char_def)
  have v1: "\<not> invalidBranch ''main''" and v2: "invalidBranch ''x; rm -rf /''"
    by (simp_all add: invalidBranch_def re_test_branch_re is_branch_char_def)
  from reset_branch_is_validated[of "[]" ?s1 ?a] d1 v1
    reset_branch_is_validated[of "[]" ?s2 ?a] d2 v2
  show ?thesis by (simp add: repoIdentifier_def)
qed

section \<open>Failure of an analysis\<close>

lemma performFreshClone_error:
  "performFreshClone sy a tr = (Inl e, tr1) \<Longrightarrow>
   \<exists>msg. e = Error (''Failed to clone repository: '' @ msg)"
  by (auto simp: performFreshClone_def exec_def Let_def split: if_splits)

lemma updateExisting_error:
  assumes "updateExisting sy a tr = (Inl e, tr1)"
  shows "(\<exists>msg. e = Error (''Failed to fetch updates: '' @ msg))
   \<or> e = Error (''Could not determine default branch for '' @ repoIdentifier a)
   \<or> (\<exists>b msg. \<not> invalidBranch b
          \<and> e = Error (''Failed to reset to origin/'' @ b @ '': '' @ msg))
   \<or> (\<exists>msg. e = Error (''Failed to clean repository: '' @ msg))"
    (is "?F \<or> ?B \<or> ?R \<or> ?C")
proof -
  let ?tr1 = "tr @ [LogMsg (repoIdentifier a @ '': Updating existing repository...'')]"
  let ?tr2 = "?tr1 @ [Exec ''git fetch --all --tags'']"
  obtain b tr3 where d: "detectDefaultBranch sy ?tr2 = (b, tr3)"
    by (cases "detectDefaultBranch sy ?tr2")
  let ?tr4 = "tr3 @ [LogMsg (repoIdentifier a @ '': Resetting to '' @ b @ ''...'')]"
  let ?reset = "run sy ?tr4 (''git reset --hard origin/'' @ b)"
  let ?tr5 = "?tr4 @ [Exec (''git reset --hard origin/'' @ b)]"
  let ?clean = "run sy ?tr5 ''git clean -fd''"
  show ?thesis
  proof (cases "code (run sy ?tr1 ''git fetch --all --tags'') = 0")
    case False
    with assms have "e = Error (''Failed to fetch updates: ''
                                @ stderr (run sy ?tr1 ''git fetch --all --tags''))"
      by (simp add: updateExisting_def exec_def Let_def)
    then have ?F by (rule exI)
    then show ?thesis by (rule disjI1)
  next
    case fetched: True
    show ?thesis
    proof (cases "invalidBranch b")
      case True
      with assms fetched d have ?B by (simp add: updateExisting_def exec_def Let_def)
      then show ?thesis by (intro disjI2 disjI1)
    next
      case valid: False
      show ?thesis
      proof (cases "code ?reset = 0")
        case False
        with assms fetched d valid
        have "e = Error (''Failed to reset to origin/'' @ b @ '': '' @ stderr ?reset)"
          by (simp add: updateExisting_def exec_def Let_def)
        with valid have ?R by blast
        then show ?thesis by (intro disjI2 disjI1)
      next
        case reset: True
        show ?thesis
        proof (cases "code ?clean = 0")
          case True
          with assms fetched d valid reset have False
            by (simp add: updateExisting_def exec_def Let_def)
          then show ?thesis ..
        next
          case False
          with assms fetched d valid reset
          have "e = Error (''Failed to clean repository: '' @ stderr ?clean)"
            by (simp add: updateExisting_def exec_def Let_def)
          then have ?C by (rule exI)
          then show ?thesis by (intro disjI2)
        qed
      qed
    qed
  qed
qed

lemma cloneRepo_error:
  assumes "cloneRepo sy a tr = (Inl e, tr1)"
  shows "(\<exists>msg. e = Error (''Failed to clone repository: '' @ msg))
   \<or> (\<exists>msg. e = Error (''Failed to fetch updates: '' @ msg))
   \<or> e = Error (''Could not determine default branch for '' @ repoIdentifier a)
   \<or> (\<exists>b msg. \<not> invalidBranch b
          \<and> e = Error (''Failed to reset to origin/'' @ b @ '': '' @ msg))
   \<or> (\<exists>msg. e = Error (''Failed to clean repository: '' @ msg))"
proof -
  let ?tr1 = "tr @ [MkdirP (dirname sy (repoPath a))]"
  let ?tr2 = "?tr1 @ [Cd (repoPath a)]"
  let ?tr3 = "?tr2 @ [Exec ''git remote get-url origin'']"
  let ?tr4 = "?tr3 @ [WarnMsg (repoIdentifier a @ '': Remote URL differs, recloning...''),
                      RmRf (repoPath a)]"
  have c: "cloneRepo sy a tr =
     (if isValidGitRepo sy ?tr1 (repoPath a)
      then if normalizeGitUrl (fst (getCurrentRemoteUrl sy ?tr2)) = normalizeGitUrl (repoUrl a)
           then updateExisting sy a ?tr3
           else performFreshClone sy a ?tr4
      else performFreshClone sy a ?tr1)"
    by (simp add: cloneRepo_def getCurrentRemoteUrl_def exec_def Let_def)
  from assms consider "performFreshClone sy a ?tr1 = (Inl e, tr1)"
    | "performFreshClone sy a ?tr4 = (Inl e, tr1)"
    | "updateExisting sy a ?tr3 = (Inl e, tr1)"
    unfolding c by (auto split: if_splits)
  then show ?thesis
  proof cases
    case 1
    from performFreshClone_error[OF this] show ?thesis by (rule disjI1)
  next
    case 2
    from performFreshClone_error[OF this] show ?thesis by (rule disjI1)
  next
    case 3
    from updateExisting_error[OF this] show ?thesis by (rule disjI2)
  qed
qed

text \<open>
  The calls of \<open>cloneAndAnalyze\<close> that can throw are those of \<open>cloneRepo\<close>: the clone,
  the fetch, the search for the default branch, the reset and the clean. When one of
  them fails, \<open>cloneAndAnalyze\<close> fails with the same error, which names the step; after
  the failing step it only reports the failure and deletes the local working copy.
\<close>

lemma cloneRepo_failure_cleans_up:
  "(\<forall>e tr'. cloneAndAnalyze sy a tr = (Inl e, tr') \<longrightarrow>
      (\<exists>tr1. cloneRepo sy a tr = (Inl e, tr1)
         \<and> tr' = tr1 @ [ErrorMsg (repoIdentifier a @ '': Analysis failed''), RmRf (repoPath a)])
      \<and> ((\<exists>msg. e = Error (''Failed to clone repository: '' @ msg))
         \<or> (\<exists>msg. e = Error (''Failed to fetch updates: '' @ msg))
         \<or> e = Error (''Could not determine default branch for '' @ repoIdentifier a)
         \<or> (\<exists>b msg. \<not> invalidBranch b
                \<and> e = Error (''Failed to reset to origin/'' @ b @ '': '' @ msg))
         \<or> (\<exists>msg. e = Error (''Failed to clean repository: '' @ msg))))
   \<and> (\<forall>e tr1. cloneRepo sy a tr = (Inl e, tr1) \<longrightarrow>
      cloneAndAnalyze sy a tr =
        (Inl e, tr1 @ [ErrorMsg (repoIdentifier a @ '': Analysis failed''), RmRf (repoPath a)]))"
proof -
  obtain res tr1 where c: "cloneRepo sy a tr = (res, tr1)" by (cases "cloneRepo sy a tr")
  show ?thesis
  proof (cases res)
    case (Inl e0)
    with c have ca: "cloneAndAnalyze sy a tr =
        (Inl e0, tr1 @ [ErrorMsg (repoIdentifier a @ '': Analysis failed''), RmRf (repoPath a)])"
      by (simp add: cloneAndAnalyze_def cleanup_def)
    from c Inl have "cloneRepo sy a tr = (Inl e0, tr1)" by simp
    from cloneRepo_error[OF this] c Inl ca show ?thesis by simp
  next
    case (Inr u)
    with c show ?thesis by (simp add: cloneAndAnalyze_def Let_def split_def)
  qed
qed

text \<open>
  Claim C6. A failure of any step of the analysis is meant to end in the deletion of the
  local working copy and in the error of that step. The code does that for the steps of
  \<open>cloneRepo\<close>, which test the exit code of their commands, as the lemma above says. It
  does not for the two history queries, which read the output of their commands and
  never the exit code. Where the clone succeeds and \<open>git shortlog\<close> and \<open>git log\<close> then
  exit with 128 and print nothing, \<open>cloneAndAnalyze\<close> returns a result, with no
  contributor and one commit without author, date and message; it reports success,
  throws nothing and leaves the working copy in place.
\<close>

theorem failed_history_query_goes_unnoticed:
  "cloneAndAnalyze
     \<lparr>run = (\<lambda>tr cmd. if cmd = ''git clone u /r/n''
                       then \<lparr>code = 0, stdout = '''', stderr = ''''\<rparr>
                       else \<lparr>code = 128, stdout = '''',
                             stderr = ''fatal: not a git repository''\<rparr>),
      existsSync = (\<lambda>tr p. False), dirname = (\<lambda>p. ''/r''), cwd = (\<lambda>tr. ''/w'')\<rparr>
     \<lparr>repoUrl = ''u'', username = ''o'', repoName = ''n'', repoPath = ''/r/n''\<rparr> []
   = (Inr \<lparr>summary = \<lparr>totalCommits = 1, totalContributors = 0, firstCommit = '''',
                         lastCommit = ''''\<rparr>,
            contributors = [],
            recentCommits = [\<lparr>hash = Some '''', author = None, date = None,
                              message = None\<rparr>],
            repositoryPath = ''/r/n''\<rparr>,
      [MkdirP ''/r'', LogMsg ''o/n: Cloning repository...'', Exec ''git clone u /r/n'',
       Cd ''/r/n'', SuccessMsg ''o/n: Clone complete'', Exec ''git shortlog -sne --all'',
       Exec ''git log --pretty=format:\"%H|%an|%ad|%s\" --date=short'',
       SuccessMsg ''o/n: Analysis complete''])"
  by code_simp

section \<open>A working copy of another remote\<close>

text \<open>
  Claim C8. When the local path holds a valid working copy and the URL of its remote,
  normalized, differs from the normalized expected URL, \<open>cloneRepo\<close> removes the directory
  and clones afresh: after creating the parent directory, entering the working copy and
  asking for its remote URL, it warns, removes the directory and runs the clone. It runs
  no fetch, no reset and no clean.
\<close>

theorem mismatched_remote_reclones:
  "isValidGitRepo sy (tr @ [MkdirP (dirname sy (repoPath a))]) (repoPath a)
   \<and> normalizeGitUrl (fst (getCurrentRemoteUrl sy
        (tr @ [MkdirP (dirname sy (repoPath a)), Cd (repoPath a)])))
       \<noteq> normalizeGitUrl (repoUrl a)
   \<longrightarrow>
     cloneRepo sy a tr =
       performFreshClone sy a
         (tr @ [MkdirP (dirname sy (repoPath a)), Cd (repoPath a),
                Exec ''git remote get-url origin'',
                WarnMsg (repoIdentifier a @ '': Remote URL differs, recloning...''),
                RmRf (repoPath a)])
     \<and> drop (length tr) (snd (cloneRepo sy a tr)) =
         [MkdirP (dirname sy (repoPath a)), Cd (repoPath a),
          Exec ''git remote get-url origin'',
          WarnMsg (repoIdentifier a @ '': Remote URL differs, recloning...''),
          RmRf (repoPath a),
          LogMsg (repoIdentifier a @ '': Cloning repository...''),
          Exec (''git clone '' @ repoUrl a @ '' '' @ repoPath a)]
         @ (if fst (cloneRepo sy a tr) = Inr ()
            then [Cd (repoPath a), SuccessMsg (repoIdentifier a @ '': Clone complete'')]
            else [])
     \<and> Exec ''git fetch --all --tags'' \<notin> set (drop (length tr) (snd (cloneRepo sy a tr)))
     \<and> resetBranches (drop (length tr) (snd (cloneRepo sy a tr))) = []
     \<and> Exec ''git clean -fd'' \<notin> set (drop (length tr) (snd (cloneRepo sy a tr)))"
  by (simp add: cloneRepo_def getCurrentRemoteUrl_def performFreshClone_def exec_def Let_def
      split_def)

text \<open>The claim for a working copy of \<open>x/y\<close> where \<open>o/n\<close> is expected.\<close>

theorem mismatched_remote_reclones_witness:
  "cloneRepo
     \<lparr>run = (\<lambda>tr cmd. \<lparr>code = 0, stdout = ''https://github.com/x/y'', stderr = ''''\<rparr>),
      existsSync = (\<lambda>tr p. True), dirname = (\<lambda>p. ''/r''), cwd = (\<lambda>tr. ''/w'')\<rparr>
     \<lparr>repoUrl = ''https://github.com/o/n'', username = ''o'', repoName = ''n'',
      repoPath = ''/r/n''\<rparr> []
   = (Inr (),
      [MkdirP ''/r'', Cd ''/r/n'', Exec ''git remote get-url origin'',
       WarnMsg ''o/n: Remote URL differs, recloning...'', RmRf ''/r/n'',
       LogMsg ''o/n: Cloning repository...'', Exec ''git clone https://github.com/o/n /r/n'',
       Cd ''/r/n'', SuccessMsg ''o/n: Clone complete''])"
proof -
  let ?sy = "\<lparr>run = (\<lambda>tr cmd. \<lparr>code = 0, stdout = ''https://github.com/x/y'', stderr = ''''\<rparr>),
      existsSync = (\<lambda>tr p. True), dirname = (\<lambda>p. ''/r''), cwd = (\<lambda>tr. ''/w'')\<rparr>"
  let ?a = "\<lparr>repoUrl = ''https://github.com/o/n'', username = ''o'', repoName = ''n'',
      repoPath = ''/r/n''\<rparr>"
  have n: "normalizeGitUrl ''https://github.com/x/y'' \<noteq> normalizeGitUrl ''https://github.com/o/n''"
    by code_simp
  have t: "trim ''https://github.com/x/y'' = ''https://github.com/x/y''"
    by code_simp
  have v: "isValidGitRepo ?sy [MkdirP ''/r''] ''/r/n''" by (simp add: isValidGitRepo_def)
  from mismatched_remote_reclones[of ?sy "[]" ?a] n t v show ?thesis
    by (simp add: getCurrentRemoteUrl_def exec_def performFreshClone_def repoIdentifier_def
        Let_def)
qed

section \<open>Normalizing a remote URL\<close>

lemma trim_id:
  assumes "s \<noteq> []" "\<not> is_space (hd s)" "\<not> is_space (last s)"
  shows "trim s = s"
proof -
  from assms have 1: "dropWhile is_space s = s" by (cases s) auto
  from assms have "rev s \<noteq> []" "\<not> is_space (hd (rev s))" by (simp_all add: hd_rev)
  then have 2: "dropWhile is_space (rev s) = rev s" by (cases "rev s") auto
  from 1 2 show ?thesis by (simp add: trim_def)
qed

lemma step_Lit_Eos:
  "step inp (Seq (Lit w) Eos) (t, g) = (if t = w then [([], g)] else [])"
  by (auto simp: prefix_def)

lemma search_Lit_Eos:
  assumes "w \<noteq> []"
  shows "search inp (Seq (Lit w) Eos) t =
     (if suffix w t
      then Some \<lparr>before = take (length inp - length w) inp, matched = w, after = [],
                 groups = Map.empty\<rparr>
      else None)"
proof (induction t)
  case Nil
  with assms show ?case by (simp add: match_here_def step_Lit_Eos del: step.simps)
next
  case (Cons c cs)
  show ?case
  proof (cases "c # cs = w")
    case True
    have "search inp (Seq (Lit w) Eos) (c # cs) =
            Some \<lparr>before = take (length inp - length (c # cs)) inp, matched = c # cs,
                   after = [], groups = Map.empty\<rparr>"
      unfolding True by (simp add: match_here_def step_Lit_Eos flip: True del: step.simps)
    then show ?thesis by (simp flip: True del: search.simps)
  next
    case False
    then have "suffix w (c # cs) \<longleftrightarrow> suffix w cs" by (auto simp: suffix_Cons)
    with False Cons show ?thesis by (simp add: match_here_def step_Lit_Eos del: step.simps)
  qed
qed

lemma strip_dot_git:
  "re_replace dot_git_end_re '''' s = (if suffix ''.git'' s then take (length s - 4) s else s)"
  by (simp add: re_replace_def re_match_def dot_git_end_re_def search_Lit_Eos eval_nat_numeral
      del: search.simps)

lemma replace_first_last:
  assumes "s \<noteq> []" "pat \<noteq> []" "last s \<noteq> last pat"
  shows "replace_first pat rep s \<noteq> [] \<and> last (replace_first pat rep s) = last s"
  using assms
proof (induction s)
  case Nil
  then show ?case by simp
next
  case (Cons c cs)
  show ?case
  proof (cases "prefix pat (c # cs)")
    case True
    then obtain rest where r: "c # cs = pat @ rest" by (auto simp: prefix_def)
    with Cons.prems have ne: "rest \<noteq> []" by auto
    from True have "replace_first pat rep (c # cs) = rep @ drop (length pat) (c # cs)"
      by simp
    also from r have "drop (length pat) (c # cs) = rest" by simp
    finally have "replace_first pat rep (c # cs) = rep @ rest" .
    moreover from r ne have "last (c # cs) = last rest" by simp
    ultimately show ?thesis using ne by simp
  next
    case False
    show ?thesis
    proof (cases cs)
      case Nil
      with False Cons.prems show ?thesis by simp
    next
      case (Cons d ds)
      with False Cons.prems Cons.IH show ?thesis by simp
    qed
  qed
qed

lemma normalize_keeps_last:
  assumes "s \<noteq> []" "\<not> is_space (hd s)" "\<not> is_space (last s)" "\<not> suffix ''.git'' s"
    "last s \<noteq> CHR '':''"
  shows "last (normalizeGitUrl s) = last s"
  using assms replace_first_last[of s "''git@github.com:''" "''https://github.com/''"]
  by (simp add: normalizeGitUrl_def trim_id strip_dot_git)

text \<open>
  Claim C3, amended. The normalization trims white space, removes \<open>.git\<close> at the end
  and rewrites the text \<open>git@github.com:\<close> to \<open>https://github.com/\<close>, where it first
  occurs. So for the host \<open>github.com\<close> the normal forms of \<open>git@host:a/b.git\<close> and
  \<open>https://host/a/b\<close> are equal, and for every host the normal forms of
  \<open>https://host/a/b\<close> and \<open>https://host/a/c\<close> differ.
\<close>

theorem normalize_github_forms:
  "normalizeGitUrl ''git@github.com:a/b.git'' = normalizeGitUrl ''https://github.com/a/b''
   \<and> normalizeGitUrl (''https://'' @ host @ ''/a/b'') \<noteq> normalizeGitUrl (''https://'' @ host @ ''/a/c'')"
proof
  show "normalizeGitUrl ''git@github.com:a/b.git'' = normalizeGitUrl ''https://github.com/a/b''"
    by code_simp
  have b: "last (normalizeGitUrl (''https://'' @ host @ ''/a/b'')) = CHR ''b''"
    using normalize_keeps_last[of "''https://'' @ host @ ''/a/b''"]
    by (simp add: is_space_def suffix_def)
  have c: "last (normalizeGitUrl (''https://'' @ host @ ''/a/c'')) = CHR ''c''"
    using normalize_keeps_last[of "''https://'' @ host @ ''/a/c''"]
    by (simp add: is_space_def suffix_def)
  from b c show "normalizeGitUrl (''https://'' @ host @ ''/a/b'')
                 \<noteq> normalizeGitUrl (''https://'' @ host @ ''/a/c'')"
    by auto
qed

text \<open>
  The claim as it was stated fails for the host \<open>gitlab.com\<close>: the SSH form keeps its
  shape and stays different from the HTTPS form.
\<close>

theorem normalize_other_host_differs:
  "normalizeGitUrl ''git@gitlab.com:a/b.git'' = ''git@gitlab.com:a/b''
   \<and> normalizeGitUrl ''https://gitlab.com/a/b'' = ''https://gitlab.com/a/b''
   \<and> normalizeGitUrl ''git@gitlab.com:a/b.git'' \<noteq> normalizeGitUrl ''https://gitlab.com/a/b''"
  by code_simp

section \<open>Parsing a repository URL\<close>

lemma step_Grp_Plus:
  "step inp (Seq (Grp n (Plus P)) R) (s, g) =
     concat (map (\<lambda>t. step inp R (t, g(n \<mapsto> take (length s - length t) s))) (rev (reps P s)))"
  by (simp add: comp_def rev_map)

lemma step_Grp_PlusLazy:
  "step inp (Seq (Grp n (PlusLazy P)) R) (s, g) =
     concat (map (\<lambda>t. step inp R (t, g(n \<mapsto> take (length s - length t) s))) (reps P s))"
  by (simp add: comp_def)

lemma greedy_run_then_stop:
  assumes F: "\<And>t h. t \<noteq> [] \<Longrightarrow> P (hd t) \<Longrightarrow> F (t, h) = []"
    and c: "\<not> P c" and cur: "\<forall>x \<in> set cur. P x"
  shows "concat (map (\<lambda>t. F (t, g(n \<mapsto> take (length (pre @ cur @ c # rest) - length t)
                                         (pre @ cur @ c # rest))))
                     (rev (reps P (cur @ c # rest))))
         = (if cur = [] then [] else F (c # rest, g(n \<mapsto> pre @ cur)))"
  using cur
proof (induction cur arbitrary: pre)
  case Nil
  with c show ?case by simp
next
  case (Cons x xs)
  from Cons.prems have px: "P x" and pxs: "\<forall>x \<in> set xs. P x" by simp_all
  define s where "s = pre @ (x # xs) @ c # rest"
  define G where "G = (\<lambda>t. F (t, g(n \<mapsto> take (length s - length t) s)))"
  have s2: "s = (pre @ [x]) @ xs @ c # rest" by (simp add: s_def)
  have unf: "concat (map G (rev (reps P ((x # xs) @ c # rest))))
             = concat (map G (rev (reps P (xs @ c # rest)))) @ G (xs @ c # rest)"
    using px by simp
  have IH: "concat (map G (rev (reps P (xs @ c # rest))))
            = (if xs = [] then [] else F (c # rest, g(n \<mapsto> (pre @ [x]) @ xs)))"
    unfolding G_def s2 by (rule Cons.IH[OF pxs])
  have "take (length s - length (xs @ c # rest)) s = pre @ [x]" by (simp add: s_def)
  then have Gl: "G (xs @ c # rest) = F (xs @ c # rest, g(n \<mapsto> pre @ [x]))"
    by (simp only: G_def)
  have "concat (map G (rev (reps P ((x # xs) @ c # rest))))
        = F (c # rest, g(n \<mapsto> pre @ x # xs))"
  proof (cases xs)
    case Nil
    with unf IH Gl show ?thesis by simp
  next
    case (Cons y ys)
    with pxs have "P (hd (xs @ c # rest))" "xs @ c # rest \<noteq> []" by simp_all
    then have "F (xs @ c # rest, h) = []" for h using F by blast
    with unf IH Gl Cons show ?thesis by simp
  qed
  then show ?case by (simp only: G_def s_def list.simps if_False)
qed

lemma owner_then_slash:
  assumes "ow \<noteq> []" "CHR ''/'' \<notin> set ow"
  shows "step inp (Seq (Grp 1 (Plus not_slash)) (Seq (Lit ''/'') R)) (ow @ ''/'' @ rest, g)
         = step inp R (rest, g(1 \<mapsto> ow))"
proof -
  have F: "step inp (Seq (Lit ''/'') R) (t, h) = []" if "t \<noteq> []" "not_slash (hd t)" for t h
    using that by (cases t) (simp_all add: not_slash_def)
  have c: "\<not> not_slash CHR ''/''" by (simp add: not_slash_def)
  from assms have cur: "\<forall>x \<in> set ow. not_slash x" by (auto simp: not_slash_def)
  from greedy_run_then_stop[of not_slash "step inp (Seq (Lit ''/'') R)", OF F c cur,
      of g 1 "[]" rest] assms(1)
  show ?thesis by (simp add: step_Grp_Plus del: step.simps) simp
qed

lemma step_opt_git_end:
  "step inp (Seq (Opt (Grp 3 (Lit ''.git''))) Eos) (t, h) =
     (if t = ''.git'' then [([], h(3 \<mapsto> ''.git''))] else [])
     @ (if t = [] then [([], h)] else [])"
  by (auto simp: prefix_def)

lemma lazy_run_to_end:
  assumes K: "\<And>t h. K (t, h) = (if t = w then [([], h(m \<mapsto> w))] else [])
                                  @ (if t = [] then [([], h)] else [])"
    and w: "w \<noteq> []"
    and cur: "\<forall>x \<in> set cur. P x" "cur \<noteq> []" "\<not> suffix w cur"
  shows "concat (map (\<lambda>t. K (t, g(n \<mapsto> take (length (pre @ cur) - length t) (pre @ cur))))
                     (reps P cur))
         = [([], g(n \<mapsto> pre @ cur))]"
  using cur
proof (induction cur arbitrary: pre)
  case Nil
  then show ?case by simp
next
  case (Cons x xs)
  from Cons.prems have px: "P x" and pxs: "\<forall>x \<in> set xs. P x" by simp_all
  from Cons.prems have nw: "xs \<noteq> w" "\<not> suffix w xs" by (auto simp: suffix_Cons)
  define s where "s = pre @ x # xs"
  define G where "G = (\<lambda>t. K (t, g(n \<mapsto> take (length s - length t) s)))"
  have s2: "s = (pre @ [x]) @ xs" by (simp add: s_def)
  have unf: "concat (map G (reps P (x # xs))) = G xs @ concat (map G (reps P xs))"
    using px by simp
  have "take (length s - length xs) s = pre @ [x]" by (simp add: s_def)
  then have Gh: "G xs = K (xs, g(n \<mapsto> pre @ [x]))" by (simp only: G_def)
  have "concat (map G (reps P (x # xs))) = [([], g(n \<mapsto> pre @ x # xs))]"
  proof (cases xs)
    case Nil
    with unf Gh w show ?thesis by (simp add: K)
  next
    case (Cons y ys)
    then have ne: "xs \<noteq> []" by simp
    have "concat (map G (reps P xs)) = [([], g(n \<mapsto> (pre @ [x]) @ xs))]"
      unfolding G_def s2 by (rule Cons.IH[OF pxs ne nw(2)])
    with unf Gh nw ne show ?thesis by (simp add: K)
  qed
  then show ?case by (simp only: G_def s_def)
qed

lemma lazy_run_to_suffix:
  assumes K: "\<And>t h. K (t, h) = (if t = w then [([], h(m \<mapsto> w))] else [])
                                  @ (if t = [] then [([], h)] else [])"
    and w: "w \<noteq> []"
    and cur: "\<forall>x \<in> set body. P x" "body \<noteq> []"
  shows "\<exists>more. concat (map (\<lambda>t. K (t, g(n \<mapsto> take (length (pre @ body @ w) - length t)
                                                   (pre @ body @ w))))
                     (reps P (body @ w)))
         = ([], g(n \<mapsto> pre @ body, m \<mapsto> w)) # more"
  using cur
proof (induction body arbitrary: pre)
  case Nil
  then show ?case by simp
next
  case (Cons x xs)
  from Cons.prems have px: "P x" and pxs: "\<forall>x \<in> set xs. P x" by simp_all
  define s where "s = pre @ (x # xs) @ w"
  define G where "G = (\<lambda>t. K (t, g(n \<mapsto> take (length s - length t) s)))"
  have s2: "s = (pre @ [x]) @ xs @ w" by (simp add: s_def)
  have unf: "concat (map G (reps P ((x # xs) @ w))) = G (xs @ w) @ concat (map G (reps P (xs @ w)))"
    using px by simp
  have "take (length s - length (xs @ w)) s = pre @ [x]" by (simp add: s_def)
  then have Gh: "G (xs @ w) = K (xs @ w, g(n \<mapsto> pre @ [x]))" by (simp only: G_def)
  have "\<exists>more. concat (map G (reps P ((x # xs) @ w)))
          = ([], g(n \<mapsto> pre @ x # xs, m \<mapsto> w)) # more"
  proof (cases xs)
    case Nil
    with unf Gh w show ?thesis by (simp add: K)
  next
    case (Cons y ys)
    then have ne: "xs \<noteq> []" by simp
    have "\<exists>more. concat (map G (reps P (xs @ w))) = ([], g(n \<mapsto> (pre @ [x]) @ xs, m \<mapsto> w)) # more"
      unfolding G_def s2 by (rule Cons.IH[OF pxs ne])
    with unf Gh ne w show ?thesis by (auto simp: K)
  qed
  then show ?case by (simp only: G_def s_def)
qed

lemma repo_tail_plain:
  assumes "repo \<noteq> []" "CHR ''/'' \<notin> set repo" "\<not> suffix ''.git'' repo"
  shows "step inp (Seq (Grp 2 (PlusLazy not_slash)) (Seq (Opt (Grp 3 (Lit ''.git''))) Eos))
           (repo, g) = [([], g(2 \<mapsto> repo))]"
proof -
  from assms have cur: "\<forall>x \<in> set repo. not_slash x" by (auto simp: not_slash_def)
  from lazy_run_to_end[of "step inp (Seq (Opt (Grp 3 (Lit ''.git''))) Eos)" "''.git''" 3,
      OF step_opt_git_end _ cur assms(1,3), of g 2 "[]"]
  show ?thesis by (simp add: step_Grp_PlusLazy del: step.simps)
qed

lemma repo_tail_git:
  assumes "repo \<noteq> []" "CHR ''/'' \<notin> set repo"
  shows "\<exists>more. step inp (Seq (Grp 2 (PlusLazy not_slash))
                          (Seq (Opt (Grp 3 (Lit ''.git''))) Eos)) (repo @ ''.git'', g)
               = ([], g(2 \<mapsto> repo, 3 \<mapsto> ''.git'')) # more"
proof -
  from assms have cur: "\<forall>x \<in> set repo. not_slash x" by (auto simp: not_slash_def)
  from lazy_run_to_suffix[of "step inp (Seq (Opt (Grp 3 (Lit ''.git''))) Eos)" "''.git''" 3,
      OF step_opt_git_end _ cur assms(1), of g 2 "[]"]
  show ?thesis by (simp add: step_Grp_PlusLazy del: step.simps)
qed

lemma step_Lit_then:
  "step inp (Seq (Lit w) R) (w @ t, g) = step inp R (t, g)"
  by simp

lemma step_Cls_then:
  "P c \<Longrightarrow> step inp (Seq (Cls P) R) (c # t, g) = step inp R (t, g)"
  by simp

lemma match_here_no_prefix:
  "\<not> prefix w s \<Longrightarrow> match_here inp (Seq (Lit w) R) s = None"
  by (simp add: match_here_def)

lemma https_here_plain:
  assumes "ow \<noteq> []" "CHR ''/'' \<notin> set ow" "repo \<noteq> []" "CHR ''/'' \<notin> set repo"
    "\<not> suffix ''.git'' repo"
  shows "\<exists>m. match_here inp https_re (''github.com/'' @ ow @ ''/'' @ repo) = Some m
           \<and> groups m 1 = Some ow \<and> groups m 2 = Some repo"
proof -
  have "step inp https_re (''github.com/'' @ ow @ ''/'' @ repo, Map.empty)
        = [([], [1 \<mapsto> ow, 2 \<mapsto> repo])]"
    unfolding https_re_def
    by (simp only: step_Lit_then owner_then_slash[OF assms(1,2)] repo_tail_plain[OF assms(3-5)])
  then show ?thesis by (simp add: match_here_def)
qed

lemma https_here_git:
  assumes "ow \<noteq> []" "CHR ''/'' \<notin> set ow" "repo \<noteq> []" "CHR ''/'' \<notin> set repo"
  shows "\<exists>m. match_here inp https_re (''github.com/'' @ ow @ ''/'' @ repo @ ''.git'') = Some m
           \<and> groups m 1 = Some ow \<and> groups m 2 = Some repo"
proof -
  from repo_tail_git[OF assms(3,4), of inp "[1 \<mapsto> ow]"] obtain more where
    "step inp (Seq (Grp 2 (PlusLazy not_slash)) (Seq (Opt (Grp 3 (Lit ''.git''))) Eos))
       (repo @ ''.git'', [1 \<mapsto> ow]) = ([], [1 \<mapsto> ow, 2 \<mapsto> repo, 3 \<mapsto> ''.git'']) # more"
    by blast
  then have "step inp https_re (''github.com/'' @ ow @ ''/'' @ repo @ ''.git'', Map.empty)
        = ([], [1 \<mapsto> ow, 2 \<mapsto> repo, 3 \<mapsto> ''.git'']) # more"
    unfolding https_re_def
    by (simp only: step_Lit_then owner_then_slash[OF assms(1,2)])
  then show ?thesis by (simp add: match_here_def)
qed

lemma ssh_here_git:
  assumes "ow \<noteq> []" "CHR ''/'' \<notin> set ow" "repo \<noteq> []" "CHR ''/'' \<notin> set repo"
  shows "\<exists>m. match_here inp ssh_re (''github.com'' @ '':'' @ ow @ ''/'' @ repo @ ''.git'') = Some m
           \<and> groups m 1 = Some ow \<and> groups m 2 = Some repo"
proof -
  from repo_tail_git[OF assms(3,4), of inp "[1 \<mapsto> ow]"] obtain more where
    "step inp (Seq (Grp 2 (PlusLazy not_slash)) (Seq (Opt (Grp 3 (Lit ''.git''))) Eos))
       (repo @ ''.git'', [1 \<mapsto> ow]) = ([], [1 \<mapsto> ow, 2 \<mapsto> repo, 3 \<mapsto> ''.git'']) # more"
    by blast
  note tail = this
  let ?R2 = "Seq (Grp 1 (Plus not_slash)) (Seq (Lit ''/'')
       (Seq (Grp 2 (PlusLazy not_slash)) (Seq (Opt (Grp 3 (Lit ''.git''))) Eos)))"
  have "step inp ssh_re (''github.com'' @ '':'' @ ow @ ''/'' @ repo @ ''.git'', Map.empty)
        = step inp (Seq (Cls colon_or_slash) ?R2) ('':'' @ ow @ ''/'' @ repo @ ''.git'', Map.empty)"
    unfolding ssh_re_def by (rule step_Lit_then)
  also have "\<dots> = step inp ?R2 (ow @ ''/'' @ repo @ ''.git'', Map.empty)"
    using step_Cls_then[of colon_or_slash "CHR '':''" inp ?R2 "ow @ ''/'' @ repo @ ''.git''"]
    by (simp add: colon_or_slash_def del: step.simps)
  also have "\<dots> = ([], [1 \<mapsto> ow, 2 \<mapsto> repo, 3 \<mapsto> ''.git'']) # more"
    by (simp only: owner_then_slash[OF assms(1,2)] tail)
  finally have "step inp ssh_re (''github.com'' @ '':'' @ ow @ ''/'' @ repo @ ''.git'', Map.empty)
        = ([], [1 \<mapsto> ow, 2 \<mapsto> repo, 3 \<mapsto> ''.git'']) # more" .
  then show ?thesis by (simp add: match_here_def)
qed

lemma search_hit: "match_here inp r s = Some m \<Longrightarrow> search inp r s = Some m"
  by (cases s) simp_all

lemma search_past_scheme:
  "search inp https_re (''https://'' @ t) = search inp https_re t"
  unfolding https_re_def by (simp add: match_here_no_prefix)

lemma search_past_user:
  "search inp ssh_re (''git@'' @ t) = search inp ssh_re t"
  unfolding ssh_re_def by (simp add: match_here_no_prefix)

lemma reps_suffix: "t \<in> set (reps P s) \<Longrightarrow> suffix t s"
  by (induction s) (auto simp: suffix_Cons split: if_splits)

lemma step_Lit_nonempty: "step inp (Seq (Lit w) R) (t, h) \<noteq> [] \<Longrightarrow> prefix w t"
  by (auto split: if_splits)

lemma step_Grp_Plus_nonempty:
  "step inp (Seq (Grp n (Plus P)) R) (s, g) \<noteq> []
   \<Longrightarrow> \<exists>t h. t \<in> set (reps P s) \<and> step inp R (t, h) \<noteq> []"
  unfolding step_Grp_Plus by auto

lemma https_needs_two_slashes:
  assumes "step inp https_re (t, g) \<noteq> []"
  shows "2 \<le> length (filter (\<lambda>c. c = CHR ''/'') t)"
proof -
  let ?R = "Seq (Lit ''/'') (Seq (Grp 2 (PlusLazy not_slash))
              (Seq (Opt (Grp 3 (Lit ''.git''))) Eos))"
  from assms have p: "prefix ''github.com/'' t"
    unfolding https_re_def by (rule step_Lit_nonempty)
  then obtain t1 where t: "t = ''github.com/'' @ t1" by (auto simp: prefix_def)
  from assms[unfolded https_re_def t step_Lit_then]
  have "step inp (Seq (Grp 1 (Plus not_slash)) ?R) (t1, g) \<noteq> []" .
  from step_Grp_Plus_nonempty[OF this]
  obtain t' h where t': "t' \<in> set (reps not_slash t1)" "step inp ?R (t', h) \<noteq> []"
    by blast
  from t'(2) have "prefix ''/'' t'" by (rule step_Lit_nonempty)
  then have "CHR ''/'' \<in> set t'" by (auto simp: prefix_def)
  with reps_suffix[OF t'(1)] have "CHR ''/'' \<in> set t1" by (auto simp: suffix_def)
  then have "filter (\<lambda>c. c = CHR ''/'') t1 \<noteq> []" by (auto simp: filter_empty_conv)
  then have "1 \<le> length (filter (\<lambda>c. c = CHR ''/'') t1)"
    by (cases "filter (\<lambda>c. c = CHR ''/'') t1") simp_all
  then show ?thesis by (simp add: t)
qed

lemma search_https_none:
  "length (filter (\<lambda>c. c = CHR ''/'') t) \<le> 1 \<Longrightarrow> search inp https_re t = None"
proof (induction t)
  case Nil
  with https_needs_two_slashes[of inp "[]" Map.empty] show ?case
    by (auto simp: match_here_def split: list.splits)
next
  case (Cons c cs)
  from Cons.prems have "length (filter (\<lambda>c. c = CHR ''/'') cs) \<le> 1" by (auto split: if_splits)
  then have "search inp https_re cs = None" by (rule Cons.IH)
  moreover from Cons.prems https_needs_two_slashes[of inp "c # cs" Map.empty]
  have "match_here inp https_re (c # cs) = None"
    by (auto simp: match_here_def split: list.splits)
  ultimately show ?case by simp
qed

text \<open>
  Claim C2, amended. Both patterns of the URL parser contain the text \<open>github.com\<close>; a
  URL without it is not parsed. For the host \<open>github.com\<close>, an owner and a
  repository name that are not empty and contain no slash, and a repository name that
  does not itself end in \<open>.git\<close>, the three forms \<open>https://github.com/owner/repo\<close>,
  \<open>https://github.com/owner/repo.git\<close> and \<open>git@github.com:owner/repo.git\<close> all yield
  the pair of this owner and this repository name, which has no \<open>.git\<close> at its end.
\<close>

theorem github_url_forms_agree:
  assumes "owner \<noteq> []" "CHR ''/'' \<notin> set owner" "repo \<noteq> []" "CHR ''/'' \<notin> set repo"
    "\<not> suffix ''.git'' repo"
  shows "parseGitUrl (''https://github.com/'' @ owner @ ''/'' @ repo) = Inr (Some owner, Some repo)
       \<and> parseGitUrl (''https://github.com/'' @ owner @ ''/'' @ repo @ ''.git'')
           = Inr (Some owner, Some repo)
       \<and> parseGitUrl (''git@github.com:'' @ owner @ ''/'' @ repo @ ''.git'')
           = Inr (Some owner, Some repo)"
proof (intro conjI)
  let ?u1 = "''https://github.com/'' @ owner @ ''/'' @ repo"
  let ?u2 = "''https://github.com/'' @ owner @ ''/'' @ repo @ ''.git''"
  let ?u3 = "''git@github.com:'' @ owner @ ''/'' @ repo @ ''.git''"
  have e1: "?u1 = ''https://'' @ (''github.com/'' @ owner @ ''/'' @ repo)" by simp
  have e2: "?u2 = ''https://'' @ (''github.com/'' @ owner @ ''/'' @ repo @ ''.git'')" by simp
  have e3: "?u3 = ''git@'' @ (''github.com'' @ '':'' @ owner @ ''/'' @ repo @ ''.git'')" by simp
  from https_here_plain[OF assms, of ?u1] obtain m1 where
    m1: "match_here ?u1 https_re (''github.com/'' @ owner @ ''/'' @ repo) = Some m1"
        "groups m1 1 = Some owner" "groups m1 2 = Some repo" by blast
  have "re_match https_re ?u1 = Some m1"
    unfolding re_match_def by (subst (2) e1) (simp only: search_past_scheme search_hit[OF m1(1)])
  with m1 show "parseGitUrl ?u1 = Inr (Some owner, Some repo)"
    by (simp add: parseGitUrl_def)
  from https_here_git[OF assms(1-4), of ?u2] obtain m2 where
    m2: "match_here ?u2 https_re (''github.com/'' @ owner @ ''/'' @ repo @ ''.git'') = Some m2"
        "groups m2 1 = Some owner" "groups m2 2 = Some repo" by blast
  have "re_match https_re ?u2 = Some m2"
    unfolding re_match_def by (subst (2) e2) (simp only: search_past_scheme search_hit[OF m2(1)])
  with m2 show "parseGitUrl ?u2 = Inr (Some owner, Some repo)"
    by (simp add: parseGitUrl_def)
  from assms(2,4) have "filter (\<lambda>c. c = CHR ''/'') owner = []"
    "filter (\<lambda>c. c = CHR ''/'') repo = []"
    by (auto simp: filter_empty_conv)
  then have "length (filter (\<lambda>c. c = CHR ''/'') ?u3) \<le> 1"
    by simp
  then have n3: "re_match https_re ?u3 = None"
    unfolding re_match_def by (rule search_https_none)
  from ssh_here_git[OF assms(1-4), of ?u3] obtain m3 where
    m3: "match_here ?u3 ssh_re (''github.com'' @ '':'' @ owner @ ''/'' @ repo @ ''.git'') = Some m3"
        "groups m3 1 = Some owner" "groups m3 2 = Some repo" by blast
  have "re_match ssh_re ?u3 = Some m3"
    unfolding re_match_def by (subst (2) e3) (simp only: search_past_user search_hit[OF m3(1)])
  with n3 m3 show "parseGitUrl ?u3 = Inr (Some owner, Some repo)"
    by (simp add: parseGitUrl_def)
qed

text \<open>The amended claim for the repository \<open>cosmology-tech/git-stats\<close>.\<close>

theorem github_url_forms_agree_witness:
  "parseGitUrl ''https://github.com/cosmology-tech/git-stats''
     = Inr (Some ''cosmology-tech'', Some ''git-stats'')
   \<and> parseGitUrl ''https://github.com/cosmology-tech/git-stats.git''
     = Inr (Some ''cosmology-tech'', Some ''git-stats'')
   \<and> parseGitUrl ''git@github.com:cosmology-tech/git-stats.git''
     = Inr (Some ''cosmology-tech'', Some ''git-stats'')"
  using github_url_forms_agree[of "''cosmology-tech''" "''git-stats''"]
  by (simp add: suffix_def)

text \<open>
  The claim as it was stated fails for the host \<open>gitlab.com\<close>, where parsing fails
  instead of yielding a pair, and for the repository name \<open>r.git\<close>, where the first form
  yields \<open>r\<close> and the second \<open>r.git\<close>, an identifier that ends in \<open>.git\<close>.
\<close>

theorem url_forms_disagree:
  "parseGitUrl ''https://gitlab.com/owner/repo''
     = Inl (Error ''Unable to parse GitHub URL: https://gitlab.com/owner/repo'')
   \<and> parseGitUrl ''https://github.com/owner/r.git'' = Inr (Some ''owner'', Some ''r'')
   \<and> parseGitUrl ''https://github.com/owner/r.git.git'' = Inr (Some ''owner'', Some ''r.git'')"
  by code_simp

section \<open>Insertions and deletions of an author\<close>


























end
